theory Spec2Isabelle
  imports Main "HOL-Library.Word"
begin

unbundle bit_operations_syntax

section \<open>C strings and the ctype predicates\<close>

text \<open>
  A C string is modelled by the list of its bytes before the terminating NUL.
  The ctype functions are those of the "C" locale, in which the programs run:
  \<open>isalpha\<close> holds of the 52 ASCII letters only, \<open>tolower\<close> moves \<open>A..Z\<close> to
  \<open>a..z\<close> and leaves every other byte alone, \<open>isspace\<close> holds of space,
  \<open>\t\<close>, \<open>\n\<close>, \<open>\v\<close>, \<open>\f\<close> and \<open>\r\<close>.
\<close>

definition isupper :: "char \<Rightarrow> bool" where
  "isupper c = (let n = (of_char c :: nat) in 65 \<le> n \<and> n \<le> 90)"

definition islower :: "char \<Rightarrow> bool" where
  "islower c = (let n = (of_char c :: nat) in 97 \<le> n \<and> n \<le> 122)"

definition isalpha :: "char \<Rightarrow> bool" where
  "isalpha c = (isupper c \<or> islower c)"

definition isdigit :: "char \<Rightarrow> bool" where
  "isdigit c = (let n = (of_char c :: nat) in 48 \<le> n \<and> n \<le> 57)"

definition isspace :: "char \<Rightarrow> bool" where
  "isspace c = (let n = (of_char c :: nat) in n = 32 \<or> (9 \<le> n \<and> n \<le> 13))"

definition tolower :: "char \<Rightarrow> char" where
  "tolower c = (if isupper c then char_of ((of_char c :: nat) + 32) else c)"

definition NUL :: char where
  "NUL = char_of (0 :: nat)"

text \<open>\<open>strcmp(a, b) == 0\<close> on C strings is equality of the byte lists.\<close>

definition is_operator :: "string \<Rightarrow> bool" where
  "is_operator t = (t = ''and'' \<or> t = ''or'')"

text \<open>
  A buffer of bytes is read as the C string that ends before its first NUL.
\<close>

definition cstring :: "string \<Rightarrow> string" where
  "cstring buf = takeWhile (\<lambda>c. c \<noteq> NUL) buf"

section \<open>The type \<open>int\<close>\<close>

text \<open>
  An \<open>int\<close> of the programs has 32 bits and a \<open>long\<close> has 64. The model keeps
  the value of an \<open>int\<close> object as an integer and writes out what happens
  where the arithmetic of the program leaves the range of the type:
  \<open>to_int v\<close> is the value an \<open>int\<close> object holds once \<open>v\<close> has been stored
  in it, \<open>v\<close> reduced modulo \<open>2^32\<close> into \<open>INT_MIN .. INT_MAX\<close>. ISO C leaves
  a signed sum outside that range undefined; the compiled programs add the two
  words and keep the low 32 bits, which is \<open>int_add\<close>.
\<close>

definition INT_MAX :: int where
  "INT_MAX = 2147483647"

definition INT_MIN :: int where
  "INT_MIN = - 2147483648"

definition to_int :: "int \<Rightarrow> int" where
  "to_int v = (v - INT_MIN) mod 4294967296 + INT_MIN"

definition int_add :: "int \<Rightarrow> int \<Rightarrow> int" where
  "int_add a b = to_int (a + b)"

definition LONG_MAX :: int where
  "LONG_MAX = 9223372036854775807"

definition LONG_MIN :: int where
  "LONG_MIN = - 9223372036854775808"

section \<open>The query tokeniser (query.c)\<close>

text \<open>
  \<open>strtok(s, delim)\<close>: skip the leading delimiter bytes; at the end of the
  string return NULL (\<open>None\<close>); otherwise the token runs to the next delimiter
  (or the end), that delimiter is overwritten by NUL, and the scan resumes after
  it. The model returns the token and the rest of the buffer that the next call
  \<open>strtok(NULL, delim)\<close> continues with.
\<close>

definition strtok :: "string \<Rightarrow> string \<Rightarrow> (string \<times> string) option" where
  "strtok delim s =
     (let s' = dropWhile (\<lambda>c. c \<in> set delim) s in
      if s' = [] then None
      else Some (takeWhile (\<lambda>c. c \<notin> set delim) s',
                 drop 1 (dropWhile (\<lambda>c. c \<notin> set delim) s')))"

text \<open>
  query.c, \<open>NormalizeWord\<close>: walk the word, fail at the first byte that is not
  alphabetic, lowercase every byte before it in place. \<open>None\<close> is the return
  value \<open>false\<close>; \<open>Some w\<close> is \<open>true\<close> with the buffer now holding \<open>w\<close>.
\<close>

fun qNormalizeWord :: "string \<Rightarrow> string option" where
  "qNormalizeWord [] = Some []"
| "qNormalizeWord (c # cs) =
     (if \<not> isalpha c then None
      else (case qNormalizeWord cs of None \<Rightarrow> None | Some w \<Rightarrow> Some (tolower c # w)))"

definition query_delim :: string where
  "query_delim = [CHR '' '', CHR 0x09]"

definition needs_implicit_and :: "string option \<Rightarrow> string \<Rightarrow> bool" where
  "needs_implicit_and prev_token token =
     (case prev_token of
        None \<Rightarrow> False
      | Some p \<Rightarrow> p \<noteq> ''and'' \<and> p \<noteq> ''or'' \<and> token \<noteq> ''and'' \<and> token \<noteq> ''or'')"

definition push_token :: "string list \<Rightarrow> string option \<Rightarrow> string \<Rightarrow> string list" where
  "push_token tokenized_query prev_token token =
     (if needs_implicit_and prev_token token
      then tokenized_query @ [''and''] @ [token]
      else tokenized_query @ [token])"

lemma strtok_shorter:
  "strtok delim s = Some (t, r) \<Longrightarrow> length r < length s"
proof -
  assume a: "strtok delim s = Some (t, r)"
  let ?s' = "dropWhile (\<lambda>c. c \<in> set delim) s"
  let ?d = "dropWhile (\<lambda>c. c \<notin> set delim) ?s'"
  from a have ne: "?s' \<noteq> []" and r: "r = drop 1 ?d"
    by (auto simp: strtok_def Let_def split: if_splits)
  have 1: "length ?d \<le> length ?s'"
    by (rule length_dropWhile_le)
  have 2: "length ?s' \<le> length s" by (rule length_dropWhile_le)
  have 3: "0 < length ?s'" using ne by simp
  have 4: "length r = length ?d - 1" using r by simp
  show ?thesis using 1 2 3 4 by linarith
qed

text \<open>
  The loop of \<open>tokenize_query\<close>. The state is the array built so far
  (\<open>tokenized_query\<close>, with \<open>count\<close> its length), \<open>prev_token\<close> (NULL is
  \<open>None\<close>; it points into the query buffer, at a token already lowercased) and
  the part of the buffer \<open>strtok\<close> has not consumed. The result is \<open>None\<close> for
  the early \<open>return NULL\<close> at a token with a non-alphabetic byte.
\<close>

function tokenize_loop ::
  "string list \<Rightarrow> string option \<Rightarrow> string \<Rightarrow> string list option" where
  "tokenize_loop tokenized_query prev_token buf =
     (case strtok query_delim buf of
        None \<Rightarrow> Some tokenized_query
      | Some (token, rest) \<Rightarrow>
          (case qNormalizeWord token of
             None \<Rightarrow> None
           | Some token' \<Rightarrow>
               if length token' < 3 \<and> token' \<noteq> ''or''
               then tokenize_loop tokenized_query prev_token rest
               else tokenize_loop (push_token tokenized_query prev_token token')
                      (Some token') rest))"
  by pat_completeness auto
termination
  apply (relation "measure (\<lambda>(tq, prev, buf). length buf)")
    apply simp
   apply (simp, metis strtok_shorter)
  apply (simp, metis strtok_shorter)
  done

declare tokenize_loop.simps [simp del]

text \<open>
  \<open>tokenize_query\<close> returns the pointer \<open>tokenized_query\<close>, which is still NULL
  when no token was stored, and sets \<open>*num_tokens\<close> only on the normal return.
  The model returns \<open>None\<close> for a NULL pointer either way; \<open>num_tokens\<close> is the
  length of the list.
\<close>

definition tokenize_query :: "string \<Rightarrow> string list option" where
  "tokenize_query query =
     (case tokenize_loop [] None query of
        None \<Rightarrow> None
      | Some tq \<Rightarrow> if tq = [] then None else Some tq)"

subsection \<open>The tokeniser as the specification words it\<close>

text \<open>
  Written from the specification, to be compared with \<open>tokenize_query\<close>: the
  raw query is split on spaces and tabs; each token is lowercased; tokens of
  length below 3 other than the literal \<open>or\<close> are dropped; between two adjacent
  surviving terms (tokens other than \<open>and\<close>, \<open>or\<close>) an \<open>and\<close> is inserted.
\<close>

fun split_acc :: "string \<Rightarrow> string \<Rightarrow> string list" where
  "split_acc cur [] = (if cur = [] then [] else [cur])"
| "split_acc cur (c # cs) =
     (if c = CHR '' '' \<or> c = CHR 0x09
      then (if cur = [] then [] else [cur]) @ split_acc [] cs
      else split_acc (cur @ [c]) cs)"

definition spec_raw_tokens :: "string \<Rightarrow> string list" where
  "spec_raw_tokens q = split_acc [] q"

definition spec_lowercase :: "string \<Rightarrow> string" where
  "spec_lowercase t = map tolower t"

definition spec_survives :: "string \<Rightarrow> bool" where
  "spec_survives t = (3 \<le> length t \<or> t = ''or'')"

fun spec_implicit_and :: "string list \<Rightarrow> string list" where
  "spec_implicit_and [] = []"
| "spec_implicit_and [t] = [t]"
| "spec_implicit_and (t # u # ts) =
     (if \<not> is_operator t \<and> \<not> is_operator u
      then t # ''and'' # spec_implicit_and (u # ts)
      else t # spec_implicit_and (u # ts))"

definition spec_token_stream :: "string \<Rightarrow> string list" where
  "spec_token_stream q =
     spec_implicit_and (filter spec_survives (map spec_lowercase (spec_raw_tokens q)))"

subsection \<open>The tokeniser meets its specification\<close>

lemma qNormalizeWord_eq:
  "qNormalizeWord t = (if list_all isalpha t then Some (map tolower t) else None)"
  by (induction t) auto

lemma split_acc_takeWhile:
  "split_acc cur s =
     (if cur @ takeWhile (\<lambda>c. c \<notin> set query_delim) s = [] then []
      else [cur @ takeWhile (\<lambda>c. c \<notin> set query_delim) s])
     @ split_acc [] (drop 1 (dropWhile (\<lambda>c. c \<notin> set query_delim) s))"
  by (induction s arbitrary: cur) (auto simp: query_delim_def)

lemma split_acc_dropWhile:
  "split_acc [] (dropWhile (\<lambda>c. c \<in> set query_delim) s) = split_acc [] s"
  by (induction s) (auto simp: query_delim_def)

lemma strtok_None_tokens:
  "strtok query_delim s = None \<Longrightarrow> spec_raw_tokens s = []"
proof -
  assume "strtok query_delim s = None"
  then have "dropWhile (\<lambda>c. c \<in> set query_delim) s = []"
    by (simp add: strtok_def Let_def split: if_splits)
  then have "split_acc [] s = split_acc [] []"
    using split_acc_dropWhile [of s] by (simp only:)
  then show ?thesis by (simp add: spec_raw_tokens_def)
qed

lemma strtok_Some_tokens:
  assumes "strtok query_delim s = Some (t, r)"
  shows "spec_raw_tokens s = t # spec_raw_tokens r"
proof -
  let ?s' = "dropWhile (\<lambda>c. c \<in> set query_delim) s"
  from assms have ne: "?s' \<noteq> []"
    and t: "t = takeWhile (\<lambda>c. c \<notin> set query_delim) ?s'"
    and r: "r = drop 1 (dropWhile (\<lambda>c. c \<notin> set query_delim) ?s')"
    by (auto simp: strtok_def Let_def split: if_splits)
  from ne have "hd ?s' \<notin> set query_delim"
    using hd_dropWhile [of "\<lambda>c. c \<in> set query_delim" s] by simp
  with ne have tne: "t \<noteq> []" unfolding t by (cases ?s') auto
  have "split_acc [] s = split_acc [] ?s'" by (simp add: split_acc_dropWhile)
  also have "\<dots> = t # split_acc [] r"
    using split_acc_takeWhile [of "[]" ?s'] tne t r by simp
  finally show ?thesis by (simp add: spec_raw_tokens_def)
qed

text \<open>
  The loop of \<open>tokenize_query\<close> over the list of the tokens \<open>strtok\<close> hands out
  one by one: a proof device, shown equal to \<open>tokenize_loop\<close> below.
\<close>

fun tok_fold :: "string list \<Rightarrow> string option \<Rightarrow> string list \<Rightarrow> string list option" where
  "tok_fold tq prev [] = Some tq"
| "tok_fold tq prev (t # ts) =
     (case qNormalizeWord t of
        None \<Rightarrow> None
      | Some t' \<Rightarrow>
          if length t' < 3 \<and> t' \<noteq> ''or'' then tok_fold tq prev ts
          else tok_fold (push_token tq prev t') (Some t') ts)"

lemma tokenize_loop_fold:
  "tokenize_loop tq prev buf = tok_fold tq prev (spec_raw_tokens buf)"
proof (induction tq prev buf rule: tokenize_loop.induct)
  case (1 tq prev buf)
  show ?case
  proof (cases "strtok query_delim buf")
    case None
    then show ?thesis by (simp add: strtok_None_tokens tokenize_loop.simps [of tq prev buf])
  next
    case (Some p)
    obtain t r where p: "p = (t, r)" by (cases p)
    note toks = strtok_Some_tokens [OF Some [unfolded p]]
    show ?thesis
    proof (cases "qNormalizeWord t")
      case None
      then show ?thesis using Some p toks by (simp add: tokenize_loop.simps [of tq prev buf])
    next
      case (Some t')
      then show ?thesis
        using \<open>strtok query_delim buf = Some p\<close> p toks "1.IH"
        by (simp add: tokenize_loop.simps [of tq prev buf])
    qed
  qed
qed


lemma implicit_and_Cons:
  "x # tl (spec_implicit_and (x # xs)) = spec_implicit_and (x # xs)"
  by (cases xs) auto

lemma tok_fold_alpha:
  assumes "\<forall>t\<in>set ts. list_all isalpha t"
  shows "tok_fold tq prev ts =
     Some (tq @ (case prev of
                   None \<Rightarrow> spec_implicit_and (filter spec_survives (map spec_lowercase ts))
                 | Some p \<Rightarrow> tl (spec_implicit_and (p # filter spec_survives (map spec_lowercase ts)))))"
  using assms
proof (induction ts arbitrary: tq prev)
  case Nil
  then show ?case by (cases prev) auto
next
  case (Cons t ts)
  have n: "qNormalizeWord t = Some (spec_lowercase t)"
    using Cons.prems by (simp add: qNormalizeWord_eq spec_lowercase_def)
  have rest: "\<forall>t\<in>set ts. list_all isalpha t" using Cons.prems by simp
  show ?case
  proof (cases "spec_survives (spec_lowercase t)")
    case False
    then have "length (spec_lowercase t) < 3 \<and> spec_lowercase t \<noteq> ''or''"
      by (auto simp: spec_survives_def)
    then show ?thesis using n False Cons.IH [OF rest, of tq prev] by (cases prev) simp_all
  next
    case True
    then have k: "\<not> (length (spec_lowercase t) < 3 \<and> spec_lowercase t \<noteq> ''or'')"
      by (auto simp: spec_survives_def)
    have step: "tok_fold tq prev (t # ts) =
        tok_fold (push_token tq prev (spec_lowercase t)) (Some (spec_lowercase t)) ts"
      using n k by auto
    show ?thesis
      unfolding step Cons.IH [OF rest]
      using True
      by (cases prev)
         (auto simp: push_token_def needs_implicit_and_def is_operator_def implicit_and_Cons)
  qed
qed

lemma tokenize_loop_spec:
  assumes "\<forall>t\<in>set (spec_raw_tokens q). list_all isalpha t"
  shows "tokenize_loop [] None q = Some (spec_token_stream q)"
  using tok_fold_alpha [OF assms, of "[]" None]
  by (simp add: tokenize_loop_fold spec_token_stream_def)

lemma tok_fold_not_alpha:
  "\<exists>t\<in>set ts. \<not> list_all isalpha t \<Longrightarrow> tok_fold tq prev ts = None"
  by (induction ts arbitrary: tq prev) (auto simp: qNormalizeWord_eq)

lemma tokenize_query_spec:
  "tokenize_query q =
     (if \<exists>t\<in>set (spec_raw_tokens q). \<not> list_all isalpha t then None
      else if spec_token_stream q = [] then None else Some (spec_token_stream q))"
proof (cases "\<exists>t\<in>set (spec_raw_tokens q). \<not> list_all isalpha t")
  case True
  then show ?thesis
    by (simp add: tokenize_query_def tokenize_loop_fold tok_fold_not_alpha)
next
  case False
  then have "\<forall>t\<in>set (spec_raw_tokens q). list_all isalpha t" by blast
  from tokenize_loop_spec [OF this] False show ?thesis
    by (simp add: tokenize_query_def)
qed

lemma isalpha_not_delim: "isalpha c \<Longrightarrow> c \<noteq> CHR '' '' \<and> c \<noteq> CHR 0x09"
  by (auto simp: isalpha_def isupper_def islower_def)

lemma split_acc_alpha_end:
  "list_all isalpha t \<Longrightarrow> split_acc cur t = (if cur @ t = [] then [] else [cur @ t])"
  by (induction t arbitrary: cur) (auto dest: isalpha_not_delim)

lemma split_acc_alpha_sep:
  "list_all isalpha t \<Longrightarrow> d = CHR '' '' \<or> d = CHR 0x09 \<Longrightarrow>
   split_acc cur (t @ d # rest) = (if cur @ t = [] then [] else [cur @ t]) @ split_acc [] rest"
  by (induction t arbitrary: cur) (auto dest: isalpha_not_delim)

lemma raw_tokens_two:
  "list_all isalpha t1 \<Longrightarrow> list_all isalpha t2 \<Longrightarrow> t1 \<noteq> [] \<Longrightarrow> t2 \<noteq> [] \<Longrightarrow>
   spec_raw_tokens (t1 @ CHR '' '' # t2) = [t1, t2]"
  by (simp add: spec_raw_tokens_def split_acc_alpha_sep split_acc_alpha_end)

lemma raw_tokens_three:
  "list_all isalpha t1 \<Longrightarrow> list_all isalpha s \<Longrightarrow> list_all isalpha t2 \<Longrightarrow>
   t1 \<noteq> [] \<Longrightarrow> t2 \<noteq> [] \<Longrightarrow> s \<noteq> [] \<Longrightarrow>
   spec_raw_tokens (t1 @ CHR '' '' # s @ CHR '' '' # t2) = [t1, s, t2]"
  by (simp add: spec_raw_tokens_def split_acc_alpha_sep split_acc_alpha_end)

lemma alpha_and: "list_all isalpha ''and''"
  by (simp add: isalpha_def isupper_def islower_def)

lemma lower_and: "spec_lowercase ''and'' = ''and''"
  by (simp add: spec_lowercase_def tolower_def isupper_def)

text \<open>
  Claim C4. For a raw query whose tokens are all alphabetic, \<open>tokenize_query\<close>
  yields the lowercased tokens without those shorter than 3 bytes (the literal
  \<open>or\<close> stays) and with an \<open>and\<close> inserted between any two adjacent
  surviving terms; the pointer it returns is NULL when nothing survives.
  Consequently, for terms \<open>t1\<close>, \<open>t2\<close> of length at least 3 that are not
  operators, the queries \<open>t1 t2\<close> and \<open>t1 and t2\<close> give the same stream
  \<open>[t1, and, t2]\<close>, and so does \<open>t1 s t2\<close> for any short token \<open>s\<close> other than
  \<open>or\<close> (such as \<open>a\<close>).
\<close>

theorem C4_tokenize_query:
  assumes q: "\<forall>t\<in>set (spec_raw_tokens q). list_all isalpha t"
    and t1: "list_all isalpha t1" "3 \<le> length t1" "\<not> is_operator (spec_lowercase t1)"
    and t2: "list_all isalpha t2" "3 \<le> length t2" "\<not> is_operator (spec_lowercase t2)"
    and s: "list_all isalpha s" "s \<noteq> []" "length s < 3" "spec_lowercase s \<noteq> ''or''"
  shows "tokenize_query q =
           (if spec_token_stream q = [] then None else Some (spec_token_stream q))
       \<and> tokenize_query (t1 @ '' '' @ t2) = Some [spec_lowercase t1, ''and'', spec_lowercase t2]
       \<and> tokenize_query (t1 @ '' and '' @ t2) = tokenize_query (t1 @ '' '' @ t2)
       \<and> tokenize_query (t1 @ '' '' @ s @ '' '' @ t2) = tokenize_query (t1 @ '' '' @ t2)"
proof -
  have ne: "t1 \<noteq> []" "t2 \<noteq> []" using t1 t2 by auto
  have l1: "length (spec_lowercase t1) = length t1" "length (spec_lowercase t2) = length t2"
    "length (spec_lowercase s) = length s"
    by (simp_all add: spec_lowercase_def)
  have a: "tokenize_query q =
           (if spec_token_stream q = [] then None else Some (spec_token_stream q))"
    using q by (simp add: tokenize_query_spec)
  have b: "tokenize_query (t1 @ '' '' @ t2) = Some [spec_lowercase t1, ''and'', spec_lowercase t2]"
    using t1 t2 ne l1
    by (simp add: tokenize_query_spec raw_tokens_two spec_token_stream_def spec_survives_def)
  have "spec_raw_tokens (t1 @ '' and '' @ t2) = [t1, ''and'', t2]"
    using raw_tokens_three [OF t1(1) alpha_and t2(1)] ne by simp
  then have c: "tokenize_query (t1 @ '' and '' @ t2) = Some [spec_lowercase t1, ''and'', spec_lowercase t2]"
    using t1 t2 l1 alpha_and lower_and
    by (simp add: tokenize_query_spec spec_token_stream_def spec_survives_def is_operator_def)
  have d: "tokenize_query (t1 @ '' '' @ s @ '' '' @ t2) = Some [spec_lowercase t1, ''and'', spec_lowercase t2]"
    using t1 t2 s l1 ne
    by (simp add: tokenize_query_spec raw_tokens_three spec_token_stream_def spec_survives_def)
  show ?thesis using a b c d by simp
qed

theorem C4_tokenize_query_witness:
  "tokenize_query ''Foo a  bar'' = Some [''foo'', ''and'', ''bar'']
   \<and> tokenize_query ''foo bar'' = Some [''foo'', ''and'', ''bar'']
   \<and> tokenize_query ''foo and bar'' = tokenize_query ''foo bar''
   \<and> tokenize_query ''foo a bar'' = tokenize_query ''foo bar''"
proof -
  have al: "list_all isalpha ''foo''" "list_all isalpha ''bar''" "list_all isalpha ''a''"
    by code_simp+
  have lo: "spec_lowercase ''foo'' = ''foo''" "spec_lowercase ''bar'' = ''bar''"
    "spec_lowercase ''a'' = ''a''"
    by code_simp+
  have q: "\<forall>t\<in>set (spec_raw_tokens ''Foo a  bar''). list_all isalpha t"
    by code_simp
  have st: "spec_token_stream ''Foo a  bar'' = [''foo'', ''and'', ''bar'']"
    by code_simp
  show ?thesis
    using C4_tokenize_query [of "''Foo a  bar''" "''foo''" "''bar''" "''a''"] al lo q st
    by (simp add: is_operator_def)
qed


section \<open>Queues (queue.c)\<close>

text \<open>
  A queue is the list of its elements, front first. \<open>qput\<close> appends at the
  back, \<open>qget\<close> removes the front element (NULL, here \<open>None\<close>, on an empty
  queue), \<open>qsearch\<close> returns a pointer to the first element the search
  function accepts. The callers write through that pointer; \<open>qmodify\<close> is
  that write: it changes the first accepted element in place and leaves the
  queue alone when there is none. Allocation failure is not modelled.
\<close>

definition qput :: "'a list \<Rightarrow> 'a \<Rightarrow> 'a list" where
  "qput qp elementp = qp @ [elementp]"


fun qsearch :: "'a list \<Rightarrow> ('a \<Rightarrow> bool) \<Rightarrow> 'a option" where
  "qsearch [] searchfn = None"
| "qsearch (e # rest) searchfn = (if searchfn e then Some e else qsearch rest searchfn)"

fun qmodify :: "'a list \<Rightarrow> ('a \<Rightarrow> bool) \<Rightarrow> ('a \<Rightarrow> 'a) \<Rightarrow> 'a list" where
  "qmodify [] searchfn f = []"
| "qmodify (e # rest) searchfn f =
     (if searchfn e then f e # rest else e # qmodify rest searchfn f)"

section \<open>Documents and ranked documents (indexio.h, query.c)\<close>

text \<open>
  \<open>document_t\<close> is \<open>{int id; int word_count;}\<close>; \<open>rankedDoc_t\<close> starts with
  the same two fields and adds three strings that are NULL (\<open>None\<close>) until
  \<open>get_metadata\<close> fills them. \<open>get_union\<close> reads the elements of its second
  queue through a \<open>document_t\<close> pointer whether they are documents of the index
  or ranked documents of the stack; the record extension gives it both. The
  two \<open>int\<close> fields hold values of \<open>INT_MIN .. INT_MAX\<close>.
\<close>

record document =
  doc_id :: int
  word_count :: int

record rankedDoc = document +
  url :: "string option"
  title :: "string option"
  content :: "string option"

definition init_doc :: "int \<Rightarrow> int \<Rightarrow> rankedDoc" where
  "init_doc i rank = \<lparr>doc_id = i, word_count = rank, url = None, title = None, content = None\<rparr>"

definition doc_searchfn :: "int \<Rightarrow> 'a document_scheme \<Rightarrow> bool" where
  "doc_searchfn i elementp = (doc_id elementp = i)"

subsection \<open>\<open>get_intersection\<close> and \<open>get_union\<close>\<close>

text \<open>
  \<open>get_intersection\<close> empties \<open>qp1\<close>: each document whose id is found in
  \<open>qp2\<close> gets the smaller of the two scores and moves to the result, every
  other one is freed. Both operands are closed afterwards.
\<close>

fun intersection_loop :: "rankedDoc list \<Rightarrow> rankedDoc list \<Rightarrow> rankedDoc list \<Rightarrow> rankedDoc list" where
  "intersection_loop [] qp2 intersect = intersect"
| "intersection_loop (doc # qp1) qp2 intersect =
     (case qsearch qp2 (doc_searchfn (doc_id doc)) of
        Some dp \<Rightarrow>
          (let wc = word_count dp; rank = word_count doc
           in intersection_loop qp1 qp2
                (qput intersect (doc\<lparr>word_count := (if wc < rank then wc else rank)\<rparr>)))
      | None \<Rightarrow> intersection_loop qp1 qp2 intersect)"

definition get_intersection :: "rankedDoc list \<Rightarrow> rankedDoc list \<Rightarrow> rankedDoc list" where
  "get_intersection qp1 qp2 = intersection_loop qp1 qp2 []"

text \<open>
  \<open>get_union\<close> takes the elements of \<open>qp2\<close> one by one: a document already in
  \<open>qp1\<close> has the score added to its own (\<open>doc->word_count = rank + word_count\<close>,
  a sum of two \<open>int\<close>s), any other is appended to \<open>qp1\<close> as a
  fresh ranked document; the element itself goes to \<open>tmp\<close>. A second loop
  puts the elements of \<open>tmp\<close> back into \<open>qp2\<close>. The model returns \<open>qp1\<close> (the
  function's result) and \<open>qp2\<close> as the call leaves it.
\<close>

fun union_loop ::
  "rankedDoc list \<Rightarrow> 'a document_scheme list \<Rightarrow> 'a document_scheme list
     \<Rightarrow> rankedDoc list \<times> 'a document_scheme list" where
  "union_loop qp1 [] tmp = (qp1, tmp)"
| "union_loop qp1 (dp # qp2) tmp =
     (let wc = word_count dp in
      case qsearch qp1 (doc_searchfn (doc_id dp)) of
        Some doc \<Rightarrow>
          union_loop
            (qmodify qp1 (doc_searchfn (doc_id dp)) (\<lambda>doc. doc\<lparr>word_count := int_add (word_count doc) wc\<rparr>))
            qp2 (qput tmp dp)
      | None \<Rightarrow> union_loop (qput qp1 (init_doc (doc_id dp) wc)) qp2 (qput tmp dp))"

fun restore_loop :: "'a list \<Rightarrow> 'a list \<Rightarrow> 'a list" where
  "restore_loop qp2 [] = qp2"
| "restore_loop qp2 (dp # tmp) = restore_loop (qput qp2 dp) tmp"

definition get_union ::
  "rankedDoc list \<Rightarrow> 'a document_scheme list \<Rightarrow> rankedDoc list \<times> 'a document_scheme list" where
  "get_union qp1 qp2 = (case union_loop qp1 qp2 [] of (qp1', tmp) \<Rightarrow> (qp1', restore_loop [] tmp))"

text \<open>The score a result list gives a document id, if it holds the id.\<close>

definition score_of :: "'a document_scheme list \<Rightarrow> int \<Rightarrow> int option" where
  "score_of qp i = map_option word_count (qsearch qp (doc_searchfn i))"

definition ids_of :: "'a document_scheme list \<Rightarrow> int list" where
  "ids_of qp = map doc_id qp"

lemma score_of_Nil [simp]: "score_of [] i = None"
  by (simp add: score_of_def)

lemma score_of_Cons:
  "score_of (d # qp) i = (if doc_id d = i then Some (word_count d) else score_of qp i)"
  by (simp add: score_of_def doc_searchfn_def)

lemma score_of_None_iff: "score_of qp i = None \<longleftrightarrow> i \<notin> set (ids_of qp)"
  by (induction qp) (auto simp: score_of_Cons ids_of_def)

lemma qsearch_score:
  "qsearch qp (doc_searchfn i) = Some d \<Longrightarrow> score_of qp i = Some (word_count d) \<and> doc_id d = i"
  by (induction qp) (auto simp: score_of_Cons doc_searchfn_def split: if_splits)

lemma qsearch_None_score:
  "qsearch qp (doc_searchfn i) = None \<longleftrightarrow> score_of qp i = None"
  by (simp add: score_of_def)

lemma score_of_append:
  "score_of (qp @ qp') i = (case score_of qp i of Some s \<Rightarrow> Some s | None \<Rightarrow> score_of qp' i)"
  by (induction qp) (auto simp: score_of_Cons)

lemma ids_qmodify [simp]:
  "ids_of (qmodify qp (doc_searchfn i) (\<lambda>doc. doc\<lparr>word_count := g doc\<rparr>)) = ids_of qp"
  by (induction qp) (auto simp: ids_of_def)

lemma score_qmodify:
  "score_of (qmodify qp (doc_searchfn i) (\<lambda>doc. doc\<lparr>word_count := int_add (word_count doc) w\<rparr>)) j =
     (if j = i then map_option (\<lambda>s. int_add s w) (score_of qp i) else score_of qp j)"
  by (induction qp) (auto simp: score_of_Cons doc_searchfn_def)

lemma ids_of_simps [simp]: "ids_of [] = []" "ids_of (d # qp) = doc_id d # ids_of qp"
  by (simp_all add: ids_of_def)

lemma ids_qput [simp]: "ids_of (qput qp d) = ids_of qp @ [doc_id d]"
  by (simp add: ids_of_def qput_def)

lemma score_qput:
  "score_of (qput qp d) i =
     (case score_of qp i of Some s \<Rightarrow> Some s
      | None \<Rightarrow> if doc_id d = i then Some (word_count d) else None)"
  by (auto simp: qput_def score_of_append score_of_Cons split: option.splits)

lemma init_doc_sel [simp]: "doc_id (init_doc i r) = i" "word_count (init_doc i r) = r"
  by (simp_all add: init_doc_def)

lemma union_loop_tmp: "snd (union_loop qp1 qp2 tmp) = tmp @ qp2"
  by (induction qp2 arbitrary: qp1 tmp) (auto simp: Let_def qput_def split: option.splits)

lemma restore_loop_append: "restore_loop qp2 tmp = qp2 @ tmp"
  by (induction tmp arbitrary: qp2) (auto simp: qput_def)

lemma get_union_restores: "snd (get_union qp1 qp2) = qp2"
  using union_loop_tmp [of qp1 qp2 "[]"]
  by (simp add: get_union_def restore_loop_append split: prod.splits)

lemma union_loop_ids:
  "distinct (ids_of qp1) \<Longrightarrow>
   distinct (ids_of (fst (union_loop qp1 qp2 tmp))) \<and>
   set (ids_of (fst (union_loop qp1 qp2 tmp))) = set (ids_of qp1) \<union> set (ids_of qp2)"
proof (induction qp2 arbitrary: qp1 tmp)
  case Nil
  then show ?case by simp
next
  case (Cons dp qp2)
  show ?case
  proof (cases "qsearch qp1 (doc_searchfn (doc_id dp))")
    case None
    then have "doc_id dp \<notin> set (ids_of qp1)"
      by (simp add: qsearch_None_score score_of_None_iff)
    then have d: "distinct (ids_of (qput qp1 (init_doc (doc_id dp) (word_count dp))))"
      using Cons.prems by simp
    show ?thesis using None Cons.IH [OF d] by (auto simp: Let_def)
  next
    case (Some doc)
    then have "doc_id dp \<in> set (ids_of qp1)"
      using score_of_None_iff [of qp1 "doc_id dp"] by (auto simp: score_of_def)
    moreover have d: "distinct (ids_of (qmodify qp1 (doc_searchfn (doc_id dp))
        (\<lambda>doc. doc\<lparr>word_count := int_add (word_count doc) (word_count dp)\<rparr>)))"
      using Cons.prems by simp
    ultimately show ?thesis using Some Cons.IH [OF d] by (auto simp: Let_def)
  qed
qed

lemma union_loop_score:
  assumes "distinct (ids_of qp2)"
  shows "score_of (fst (union_loop qp1 qp2 tmp)) i =
     (case (score_of qp1 i, score_of qp2 i) of
        (Some a, Some b) \<Rightarrow> Some (int_add a b)
      | (Some a, None) \<Rightarrow> Some a
      | (None, Some b) \<Rightarrow> Some b
      | (None, None) \<Rightarrow> None)"
  using assms
proof (induction qp2 arbitrary: qp1 tmp)
  case Nil
  then show ?case by (simp split: option.splits)
next
  case (Cons dp qp2)
  from Cons.prems have d: "distinct (ids_of qp2)" and n: "doc_id dp \<notin> set (ids_of qp2)"
    by simp_all
  from n have s2: "score_of qp2 (doc_id dp) = None" by (simp add: score_of_None_iff)
  show ?case
  proof (cases "qsearch qp1 (doc_searchfn (doc_id dp))")
    case None
    then have s1: "score_of qp1 (doc_id dp) = None" by (simp add: qsearch_None_score)
    show ?thesis
      using None s1 s2
        Cons.IH [OF d, of "qput qp1 (init_doc (doc_id dp) (word_count dp))" "qput tmp dp"]
      by (auto simp: Let_def score_qput score_of_Cons split: option.splits)
  next
    case (Some doc)
    then obtain a where a: "score_of qp1 (doc_id dp) = Some a"
      by (auto simp: score_of_def)
    show ?thesis
      using Some a s2
        Cons.IH [OF d, of "qmodify qp1 (doc_searchfn (doc_id dp))
          (\<lambda>doc. doc\<lparr>word_count := int_add (word_count doc) (word_count dp)\<rparr>)" "qput tmp dp"]
      by (auto simp: Let_def score_qmodify score_of_Cons split: option.splits)
  qed
qed

lemma to_int_id: "INT_MIN \<le> v \<Longrightarrow> v \<le> INT_MAX \<Longrightarrow> to_int v = v"
  by (simp add: to_int_def INT_MIN_def INT_MAX_def)

lemma intersection_loop_ids:
  "ids_of (intersection_loop qp1 qp2 acc) =
     ids_of acc @ filter (\<lambda>i. i \<in> set (ids_of qp2)) (ids_of qp1)"
proof (induction qp1 arbitrary: acc)
  case Nil
  then show ?case by simp
next
  case (Cons doc qp1)
  show ?case
  proof (cases "qsearch qp2 (doc_searchfn (doc_id doc))")
    case None
    then have "doc_id doc \<notin> set (ids_of qp2)"
      by (simp add: qsearch_None_score score_of_None_iff)
    then show ?thesis using None Cons.IH [of acc] by simp
  next
    case (Some dp)
    then have "doc_id doc \<in> set (ids_of qp2)"
      using score_of_None_iff [of qp2 "doc_id doc"] by (auto simp: score_of_def)
    then show ?thesis using Some Cons.IH by (simp add: Let_def)
  qed
qed

lemma intersection_loop_score:
  "score_of (intersection_loop qp1 qp2 acc) i =
     (case score_of acc i of
        Some s \<Rightarrow> Some s
      | None \<Rightarrow>
          (case score_of qp1 i of
             None \<Rightarrow> None
           | Some a \<Rightarrow> (case score_of qp2 i of None \<Rightarrow> None | Some b \<Rightarrow> Some (min a b))))"
proof (induction qp1 arbitrary: acc)
  case Nil
  then show ?case by (simp split: option.splits)
next
  case (Cons doc qp1)
  show ?case
  proof (cases "qsearch qp2 (doc_searchfn (doc_id doc))")
    case None
    then have "score_of qp2 (doc_id doc) = None" by (simp add: qsearch_None_score)
    then show ?thesis using None Cons.IH [of acc]
      by (auto simp: score_of_Cons split: option.splits)
  next
    case (Some dp)
    then have b: "score_of qp2 (doc_id doc) = Some (word_count dp)"
      by (simp add: qsearch_score)
    show ?thesis
      using Some b
        Cons.IH [of "qput acc (doc\<lparr>word_count := (if word_count dp < word_count doc then word_count dp else word_count doc)\<rparr>)"]
      by (auto simp: Let_def score_qput score_of_Cons min_def split: option.splits)
  qed
qed

text \<open>
  Claim C1, as amended. For result lists \<open>A\<close> and \<open>B\<close> (each holding a
  document id at most once, as every list the evaluation builds does),
  \<open>get_intersection\<close> returns a list with exactly one ranked document per id
  present in both, whose score is the smaller of the two scores; \<open>get_union\<close>
  returns a list with exactly one ranked document per id present in either; an
  id present in one list only keeps its score, and an id present in both gets
  the sum of the two scores as an \<open>int\<close> holds it, which is the sum itself
  whenever the sum lies in \<open>INT_MIN .. INT_MAX\<close>.
\<close>

theorem C1_combine:
  assumes A: "distinct (ids_of A)" and B: "distinct (ids_of B)"
  shows "distinct (ids_of (get_intersection A B))
       \<and> set (ids_of (get_intersection A B)) = set (ids_of A) \<inter> set (ids_of B)
       \<and> (\<forall>i. score_of (get_intersection A B) i =
            (case (score_of A i, score_of B i) of
               (Some a, Some b) \<Rightarrow> Some (min a b)
             | _ \<Rightarrow> None))
       \<and> distinct (ids_of (fst (get_union A B)))
       \<and> set (ids_of (fst (get_union A B))) = set (ids_of A) \<union> set (ids_of B)
       \<and> (\<forall>i. score_of (fst (get_union A B)) i =
            (case (score_of A i, score_of B i) of
               (Some a, Some b) \<Rightarrow> Some (int_add a b)
             | (Some a, None) \<Rightarrow> Some a
             | (None, Some b) \<Rightarrow> Some b
             | (None, None) \<Rightarrow> None))
       \<and> (\<forall>i a b. score_of A i = Some a \<and> score_of B i = Some b
              \<and> INT_MIN \<le> a + b \<and> a + b \<le> INT_MAX
            \<longrightarrow> score_of (fst (get_union A B)) i = Some (a + b))"
proof -
  have i1: "distinct (ids_of (get_intersection A B))"
    using A by (simp add: get_intersection_def intersection_loop_ids)
  have i2: "set (ids_of (get_intersection A B)) = set (ids_of A) \<inter> set (ids_of B)"
    by (auto simp: get_intersection_def intersection_loop_ids)
  have i3: "score_of (get_intersection A B) i =
            (case (score_of A i, score_of B i) of
               (Some a, Some b) \<Rightarrow> Some (min a b)
             | _ \<Rightarrow> None)" for i
    by (simp add: get_intersection_def intersection_loop_score split: option.splits)
  have u: "fst (get_union A B) = fst (union_loop A B [])"
    by (simp add: get_union_def split: prod.splits)
  have u1: "distinct (ids_of (fst (get_union A B)))"
    and u2: "set (ids_of (fst (get_union A B))) = set (ids_of A) \<union> set (ids_of B)"
    using union_loop_ids [OF A, of B "[]"] by (simp_all add: u)
  have u3: "score_of (fst (get_union A B)) i =
            (case (score_of A i, score_of B i) of
               (Some a, Some b) \<Rightarrow> Some (int_add a b)
             | (Some a, None) \<Rightarrow> Some a
             | (None, Some b) \<Rightarrow> Some b
             | (None, None) \<Rightarrow> None)" for i
    using union_loop_score [OF B, of A "[]" i] by (simp add: u)
  have u4: "score_of (fst (get_union A B)) i = Some (a + b)"
    if "score_of A i = Some a \<and> score_of B i = Some b
          \<and> INT_MIN \<le> a + b \<and> a + b \<le> INT_MAX" for i a b
    using that u3 [of i] by (simp add: int_add_def to_int_id)
  show ?thesis using i1 i2 i3 u1 u2 u3 u4 by blast
qed

theorem C1_combine_witness:
  "distinct (ids_of [init_doc 1 3, init_doc 2 5])
   \<and> distinct (ids_of [init_doc 2 4, init_doc 7 1])
   \<and> ids_of (get_intersection [init_doc 1 3, init_doc 2 5] [init_doc 2 4, init_doc 7 1]) = [2]
   \<and> score_of (get_intersection [init_doc 1 3, init_doc 2 5] [init_doc 2 4, init_doc 7 1]) 2 = Some 4
   \<and> ids_of (fst (get_union [init_doc 1 3, init_doc 2 5] [init_doc 2 4, init_doc 7 1])) = [1, 2, 7]
   \<and> score_of (fst (get_union [init_doc 1 3, init_doc 2 5] [init_doc 2 4, init_doc 7 1])) 1 = Some 3
   \<and> score_of (fst (get_union [init_doc 1 3, init_doc 2 5] [init_doc 2 4, init_doc 7 1])) 2 = Some 9
   \<and> score_of (fst (get_union [init_doc 1 3, init_doc 2 5] [init_doc 2 4, init_doc 7 1])) 7 = Some 1"
proof -
  have dA: "distinct (ids_of [init_doc 1 3, init_doc 2 5])"
    and dB: "distinct (ids_of [init_doc 2 4, init_doc 7 1])"
    by simp_all
  have sA: "score_of [init_doc 1 3, init_doc 2 5] 1 = Some 3"
    "score_of [init_doc 1 3, init_doc 2 5] 2 = Some 5"
    "score_of [init_doc 1 3, init_doc 2 5] 7 = None"
    and sB: "score_of [init_doc 2 4, init_doc 7 1] 1 = None"
    "score_of [init_doc 2 4, init_doc 7 1] 2 = Some 4"
    "score_of [init_doc 2 4, init_doc 7 1] 7 = Some 1"
    by (simp_all add: score_of_Cons)
  have iI: "ids_of (get_intersection [init_doc 1 3, init_doc 2 5] [init_doc 2 4, init_doc 7 1]) = [2]"
    by (simp add: get_intersection_def doc_searchfn_def qput_def)
  have iU: "ids_of (fst (get_union [init_doc 1 3, init_doc 2 5] [init_doc 2 4, init_doc 7 1])) = [1, 2, 7]"
    by (simp add: get_union_def doc_searchfn_def qput_def)
  have r: "INT_MIN \<le> (5::int) + 4 \<and> (5::int) + 4 \<le> INT_MAX"
    by (simp add: INT_MIN_def INT_MAX_def)
  show ?thesis
    using C1_combine [OF dA dB] dA dB sA sB iI iU r
    by (simp add: int_add_def to_int_def INT_MIN_def INT_MAX_def)
qed

text \<open>
  The claim as it was stated, with the score \<open>score_A + score_B\<close> for every
  pair of result lists, fails where the sum does not fit an \<open>int\<close>: for
  document 1 with the scores 2147483647 and 1 (the lists of \<open>cat\<close> and \<open>dog\<close>
  in the query \<open>dog or cat\<close>, when the index file holds the lines
  \<open>cat 1 2147483647\<close> and \<open>dog 1 1\<close>) the score of the union is -2147483648.
\<close>

theorem C1_overflow_counterexample:
  "distinct (ids_of [init_doc 1 2147483647]) \<and> distinct (ids_of [init_doc 1 1])
   \<and> score_of [init_doc 1 2147483647] 1 = Some 2147483647
   \<and> score_of [init_doc 1 1] 1 = Some 1
   \<and> score_of (fst (get_union [init_doc 1 2147483647] [init_doc 1 1])) 1 = Some (- 2147483648)
   \<and> score_of (fst (get_union [init_doc 1 2147483647] [init_doc 1 1])) 1
       \<noteq> Some (2147483647 + 1)"
  by (simp add: get_union_def score_of_Cons doc_searchfn_def init_doc_def int_add_def to_int_def
      INT_MIN_def)


section \<open>The hash table (hash.c)\<close>

type_synonym u32 = "32 word"

text \<open>
  \<open>SuperFastHash\<close> reads its key two bytes at a time through a
  \<open>uint16_t\<close> pointer (\<open>get16bits\<close>; the low byte first, as on the
  little-endian machines the program is built for) and one byte at a time
  through a \<open>char\<close> pointer, which is signed there. It never reads past
  \<open>len\<close> bytes; the callers pass \<open>strlen(key)\<close>, and a position past the end of
  the list reads as the terminating NUL.
\<close>

definition byte_at :: "string \<Rightarrow> nat \<Rightarrow> u32" where
  "byte_at d k = (if k < length d then of_char (d ! k) else 0)"

definition schar_at :: "string \<Rightarrow> nat \<Rightarrow> u32" where
  "schar_at d k = (let b = byte_at d k in if b < 128 then b else b - 256)"

definition get16bits :: "string \<Rightarrow> u32" where
  "get16bits d = byte_at d 0 + push_bit 8 (byte_at d 1)"

fun sfh_main_loop :: "nat \<Rightarrow> string \<Rightarrow> u32 \<Rightarrow> string \<times> u32" where
  "sfh_main_loop 0 data hash = (data, hash)"
| "sfh_main_loop (Suc len) data hash =
     (let hash = hash + get16bits data;
          tmp = push_bit 11 (get16bits (drop 2 data)) XOR hash;
          hash = push_bit 16 hash XOR tmp;
          data = drop 4 data;
          hash = hash + drop_bit 11 hash
      in sfh_main_loop len data hash)"

definition sfh_end_case :: "nat \<Rightarrow> string \<Rightarrow> u32 \<Rightarrow> u32" where
  "sfh_end_case rem data hash =
     (if rem = 3 then
        (let hash = hash + get16bits data;
             hash = hash XOR push_bit 16 hash;
             hash = hash XOR push_bit 18 (schar_at data 2);
             hash = hash + drop_bit 11 hash
         in hash)
      else if rem = 2 then
        (let hash = hash + get16bits data;
             hash = hash XOR push_bit 11 hash;
             hash = hash + drop_bit 17 hash
         in hash)
      else if rem = 1 then
        (let hash = hash + schar_at data 0;
             hash = hash XOR push_bit 10 hash;
             hash = hash + drop_bit 1 hash
         in hash)
      else hash)"

definition sfh_avalanche :: "u32 \<Rightarrow> u32" where
  "sfh_avalanche h0 =
     (let hash = h0 XOR push_bit 3 h0;
          hash = hash + drop_bit 5 hash;
          hash = hash XOR push_bit 4 hash;
          hash = hash + drop_bit 17 hash;
          hash = hash XOR push_bit 25 hash;
          hash = hash + drop_bit 6 hash
      in hash)"

definition SuperFastHash :: "string \<Rightarrow> int \<Rightarrow> u32 \<Rightarrow> u32" where
  "SuperFastHash data len tablesize =
     (if len \<le> 0 then 0
      else
        (let hash = (of_int len :: u32);
             rem = nat (len mod 4);
             (data', hash) = sfh_main_loop (nat (len div 4)) data hash;
             hash = sfh_end_case rem data' hash
         in sfh_avalanche hash mod tablesize))"

definition strlen :: "string \<Rightarrow> int" where
  "strlen s = int (length s)"

text \<open>
  A table is \<open>tablesize\<close> queues. \<open>hput\<close> appends to the queue the key hashes
  to; \<open>happly\<close> visits the queues in order, each from the front; \<open>hsearch\<close>
  searches the one queue the key hashes to and returns a pointer to the element
  found, through which the callers write (\<open>hmodify\<close>).
\<close>

record 'e table =
  tablesize :: u32
  hash_table :: "'e list list"

definition hopen :: "u32 \<Rightarrow> 'e table option" where
  "hopen hsize =
     (if hsize \<le> 0 then None
      else Some \<lparr>tablesize = hsize, hash_table = replicate (unat hsize) []\<rparr>)"

definition hput :: "'e table \<Rightarrow> 'e \<Rightarrow> string \<Rightarrow> int \<Rightarrow> 'e table" where
  "hput htp ep key keylen =
     (let hash = unat (SuperFastHash key keylen (tablesize htp))
      in htp\<lparr>hash_table := (hash_table htp)[hash := qput (hash_table htp ! hash) ep]\<rparr>)"

definition happly :: "'e table \<Rightarrow> 'e list" where
  "happly htp = concat (take (unat (tablesize htp)) (hash_table htp))"

definition hsearch :: "'e table \<Rightarrow> (string \<Rightarrow> 'e \<Rightarrow> bool) \<Rightarrow> string \<Rightarrow> int \<Rightarrow> 'e option" where
  "hsearch htp searchfn key keylen =
     (let hash = unat (SuperFastHash key keylen (tablesize htp))
      in qsearch (hash_table htp ! hash) (searchfn key))"

definition hmodify ::
  "'e table \<Rightarrow> (string \<Rightarrow> 'e \<Rightarrow> bool) \<Rightarrow> string \<Rightarrow> int \<Rightarrow> ('e \<Rightarrow> 'e) \<Rightarrow> 'e table" where
  "hmodify htp searchfn key keylen f =
     (let hash = unat (SuperFastHash key keylen (tablesize htp))
      in htp\<lparr>hash_table := (hash_table htp)[hash := qmodify (hash_table htp ! hash) (searchfn key) f]\<rparr>)"

definition table_ok :: "'e table \<Rightarrow> bool" where
  "table_ok htp = (tablesize htp \<noteq> 0 \<and> length (hash_table htp) = unat (tablesize htp))"

definition hsize :: u32 where
  "hsize = 1000"

lemma SuperFastHash_less:
  "ts \<noteq> 0 \<Longrightarrow> unat (SuperFastHash data len ts) < unat ts"
proof -
  assume ts: "ts \<noteq> 0"
  have "x mod ts < ts" for x :: u32
    using ts by (simp add: word_mod_less_divisor word_neq_0_conv)
  then have "unat (x mod ts) < unat ts" for x :: u32
    by (simp add: unat_mono)
  moreover have "unat (0 :: u32) < unat ts" using ts by (simp add: unat_gt_0)
  ultimately show ?thesis
    by (simp add: SuperFastHash_def Let_def split: prod.splits)
qed

section \<open>The index (indexio.h)\<close>

record entry =
  word :: string
  documents :: "document list"

definition new_entry :: "string \<Rightarrow> entry" where
  "new_entry w = \<lparr>word = w, documents = []\<rparr>"

definition new_doc :: "int \<Rightarrow> int \<Rightarrow> document" where
  "new_doc i wc = \<lparr>doc_id = i, word_count = wc\<rparr>"

definition token_searchfn :: "string \<Rightarrow> entry \<Rightarrow> bool" where
  "token_searchfn key ep = (word ep = key)"

section \<open>Query evaluation (query.c, \<open>main\<close>)\<close>

text \<open>
  \<open>validate_query\<close> reads \<open>query[0]\<close> and \<open>query[num_tokens - 1]\<close>; \<open>main\<close>
  calls it only with an array that holds a token. On an empty array the reads
  are outside it, and the model gives no verdict (\<open>None\<close>).
\<close>

fun validate_loop :: "string list \<Rightarrow> bool" where
  "validate_loop (t # u # ts) =
     (if t = ''and'' then
        (if u = ''and'' \<or> u = ''or'' then False else validate_loop (u # ts))
      else if t = ''or'' then
        (if u = ''and'' \<or> u = ''or'' then False else validate_loop (u # ts))
      else validate_loop (u # ts))"
| "validate_loop ts = True"

fun validate_query :: "string list \<Rightarrow> bool option" where
  "validate_query [] = None"
| "validate_query (t # ts) =
     Some (if t = ''and'' \<or> t = ''or'' \<or> last (t # ts) = ''and'' \<or> last (t # ts) = ''or''
           then False
           else validate_loop (t # ts))"

text \<open>
  The token loop of \<open>main\<close>. The state is the index, the stack of result
  queues (its top is the head of the list) and \<open>curr_operator\<close>. A term looks
  its entry up, copies the entry's documents into a fresh queue with
  \<open>get_union\<close> (which takes the entry's queue apart and rebuilds it through the
  pointer \<open>ep->documents\<close>), pushes the queue and, when the pending operator is
  \<open>and\<close>, replaces the two topmost queues by their intersection. Popping two
  queues off a stack that holds fewer reads \<open>stack[-1]\<close>: the fault
  \<open>StackUnderflow\<close>.
\<close>

datatype fault = StackUnderflow | NullDereference | NegativeLength | BufferOverflow

type_synonym eval_state = "entry table \<times> rankedDoc list list \<times> string"

definition lookup_term :: "entry table \<Rightarrow> string \<Rightarrow> entry table \<times> rankedDoc list" where
  "lookup_term index token =
     (case hsearch index token_searchfn token (strlen token) of
        None \<Rightarrow> (index, [])
      | Some ep \<Rightarrow>
          (case get_union [] (documents ep) of
             (tmp, docs) \<Rightarrow>
               (hmodify index token_searchfn token (strlen token) (\<lambda>ep. ep\<lparr>documents := docs\<rparr>),
                tmp)))"

definition process_token :: "eval_state \<Rightarrow> string \<Rightarrow> fault + eval_state" where
  "process_token st token =
     (case st of (index, stack, curr_operator) \<Rightarrow>
        if token = ''and'' \<or> token = ''or'' then Inr (index, stack, token)
        else
          (case lookup_term index token of
             (index', tmp) \<Rightarrow>
               if curr_operator = ''and'' then
                 (case tmp # stack of
                    qp1 # qp2 # rest \<Rightarrow> Inr (index', get_intersection qp1 qp2 # rest, curr_operator)
                  | _ \<Rightarrow> Inl StackUnderflow)
               else Inr (index', tmp # stack, curr_operator)))"

fun process_tokens :: "eval_state \<Rightarrow> string list \<Rightarrow> fault + eval_state" where
  "process_tokens st [] = Inr st"
| "process_tokens st (token # rest) =
     (case process_token st token of
        Inl f \<Rightarrow> Inl f
      | Inr st' \<Rightarrow> process_tokens st' rest)"

text \<open>
  \<open>while (top > 0)\<close>: the two topmost queues are replaced by their union
  until one queue is left, and \<open>ranked_docs = stack[top]\<close> is that queue.
\<close>

function union_stack :: "rankedDoc list list \<Rightarrow> rankedDoc list list" where
  "union_stack (qp1 # qp2 # rest) = union_stack (fst (get_union qp1 qp2) # rest)"
| "union_stack [qp] = [qp]"
| "union_stack [] = []"
  by pat_completeness auto
termination
  by (relation "measure length") simp_all

definition evaluate :: "entry table \<Rightarrow> string list \<Rightarrow> fault + (entry table \<times> rankedDoc list)" where
  "evaluate index tokens =
     (case process_tokens (index, [], []) tokens of
        Inl f \<Rightarrow> Inl f
      | Inr (index', stack, curr_operator) \<Rightarrow>
          (case union_stack stack of
             ranked_docs # rest \<Rightarrow> Inr (index', ranked_docs)
           | [] \<Rightarrow> Inl StackUnderflow))"

lemma qmodify_id:
  "qsearch q P = Some e \<Longrightarrow> f e = e \<Longrightarrow> qmodify q P f = q"
  by (induction q) (auto split: if_splits)

lemma lookup_term_index: "fst (lookup_term index token) = index"
proof (cases "hsearch index token_searchfn token (strlen token)")
  case None
  then show ?thesis by (simp add: lookup_term_def)
next
  case (Some ep)
  let ?h = "unat (SuperFastHash token (strlen token) (tablesize index))"
  have docs: "snd (get_union [] (documents ep)) = documents ep"
    by (rule get_union_restores)
  from Some have q: "qsearch (hash_table index ! ?h) (token_searchfn token) = Some ep"
    by (simp add: hsearch_def Let_def)
  have "qmodify (hash_table index ! ?h) (token_searchfn token)
          (\<lambda>e. e\<lparr>documents := documents ep\<rparr>) = hash_table index ! ?h"
    by (rule qmodify_id [OF q]) simp
  then have "hmodify index token_searchfn token (strlen token)
          (\<lambda>e. e\<lparr>documents := documents ep\<rparr>) = index"
    by (simp add: hmodify_def Let_def)
  moreover obtain tmp where "get_union [] (documents ep) = (tmp, documents ep)"
    using docs by (cases "get_union [] (documents ep)") simp
  ultimately show ?thesis using Some
    by (simp add: lookup_term_def)
qed

lemma process_token_step:
  assumes "stack \<noteq> [] \<or> (curr_operator \<noteq> ''and'' \<and> token \<noteq> ''and'' \<and> token \<noteq> ''or'')"
  shows "\<exists>stack' op'. process_token (index, stack, curr_operator) token = Inr (index, stack', op')
           \<and> stack' \<noteq> []"
proof (cases "token = ''and'' \<or> token = ''or''")
  case True
  then show ?thesis using assms by (auto simp: process_token_def)
next
  case False
  obtain tmp where l: "lookup_term index token = (index, tmp)"
    using lookup_term_index [of index token] by (cases "lookup_term index token") simp
  show ?thesis
  proof (cases stack)
    case Nil
    then show ?thesis using assms False l by (simp add: process_token_def)
  next
    case (Cons qp2 rest)
    then show ?thesis using False l by (simp add: process_token_def)
  qed
qed

lemma process_tokens_nonempty:
  "stack \<noteq> [] \<Longrightarrow>
   \<exists>stack' op'. process_tokens (index, stack, curr_operator) tokens = Inr (index, stack', op')
     \<and> stack' \<noteq> []"
proof (induction tokens arbitrary: stack curr_operator)
  case Nil
  then show ?case by simp
next
  case (Cons token tokens)
  from process_token_step [of stack curr_operator token index] Cons.prems
  obtain stack' op' where
    s: "process_token (index, stack, curr_operator) token = Inr (index, stack', op')"
    and ne: "stack' \<noteq> []" by blast
  from Cons.IH [OF ne, of op'] s show ?case by simp
qed

lemma union_stack_nonempty: "stack \<noteq> [] \<Longrightarrow> union_stack stack \<noteq> []"
  by (induction stack rule: union_stack.induct) simp_all

lemma evaluate_accepted:
  assumes "validate_query tokens = Some True"
  shows "\<exists>ranked_docs. evaluate index tokens = Inr (index, ranked_docs)"
proof -
  from assms obtain t ts where tok: "tokens = t # ts" and t: "t \<noteq> ''and''" "t \<noteq> ''or''"
    by (cases tokens) (auto split: if_splits)
  from process_token_step [of "[]" "[]" t index] t
  obtain stack1 op1 where
    s1: "process_token (index, [], []) t = Inr (index, stack1, op1)" and ne1: "stack1 \<noteq> []"
    by auto
  from process_tokens_nonempty [OF ne1, of index op1 ts]
  obtain stack' op' where
    s: "process_tokens (index, stack1, op1) ts = Inr (index, stack', op')" and ne: "stack' \<noteq> []"
    by blast
  from union_stack_nonempty [OF ne] obtain r rest where u: "union_stack stack' = r # rest"
    by (cases "union_stack stack'") auto
  show ?thesis using tok s1 s u by (simp add: evaluate_def)
qed

subsection \<open>The result lists of an evaluation\<close>

text \<open>
  Every result list the evaluation builds holds a document id at most once:
  the queue pushed for a term, every intersection and every union.
\<close>

lemma fst_get_union: "fst (get_union qp1 qp2) = fst (union_loop qp1 qp2 [])"
  by (simp add: get_union_def split: prod.splits)

lemma get_union_distinct:
  "distinct (ids_of qp1) \<Longrightarrow> distinct (ids_of (fst (get_union qp1 qp2)))"
  using union_loop_ids [of qp1 qp2 "[]"] by (simp add: fst_get_union)

lemma lookup_term_distinct: "distinct (ids_of (snd (lookup_term index token)))"
proof (cases "hsearch index token_searchfn token (strlen token)")
  case None
  then show ?thesis by (simp add: lookup_term_def)
next
  case (Some ep)
  have "distinct (ids_of (fst (get_union [] (documents ep))))"
    by (rule get_union_distinct) simp
  then show ?thesis using Some
    by (auto simp: lookup_term_def split: prod.splits)
qed

lemma get_intersection_distinct:
  "distinct (ids_of qp1) \<Longrightarrow> distinct (ids_of (get_intersection qp1 qp2))"
  by (simp add: get_intersection_def intersection_loop_ids)

lemma process_token_distinct:
  assumes "list_all (\<lambda>qp. distinct (ids_of qp)) stack"
    and "process_token (index, stack, curr_operator) token = Inr (index', stack', op')"
  shows "list_all (\<lambda>qp. distinct (ids_of qp)) stack'"
proof (cases "token = ''and'' \<or> token = ''or''")
  case True
  then show ?thesis using assms by (auto simp: process_token_def)
next
  case False
  obtain idx tmp where l: "lookup_term index token = (idx, tmp)"
    by (cases "lookup_term index token")
  then have d: "distinct (ids_of tmp)"
    using lookup_term_distinct [of index token] by simp
  show ?thesis
    using assms False l d get_intersection_distinct [OF d]
    by (cases stack) (auto simp: process_token_def split: if_splits)
qed

lemma process_tokens_distinct:
  assumes "list_all (\<lambda>qp. distinct (ids_of qp)) stack"
    and "process_tokens (index, stack, curr_operator) tokens = Inr (index', stack', op')"
  shows "list_all (\<lambda>qp. distinct (ids_of qp)) stack'"
  using assms
proof (induction tokens arbitrary: index stack curr_operator)
  case Nil
  then show ?case by simp
next
  case (Cons token tokens)
  from Cons.prems(2) obtain st1 where
    s1: "process_token (index, stack, curr_operator) token = Inr st1"
    and r: "process_tokens st1 tokens = Inr (index', stack', op')"
    by (auto split: sum.splits)
  obtain index1 stack1 op1 where st1: "st1 = (index1, stack1, op1)" by (cases st1)
  from process_token_distinct [OF Cons.prems(1) s1 [unfolded st1]]
  have "list_all (\<lambda>qp. distinct (ids_of qp)) stack1" .
  from Cons.IH [OF this r [unfolded st1]] show ?case .
qed

lemma union_stack_distinct:
  "list_all (\<lambda>qp. distinct (ids_of qp)) stack \<Longrightarrow>
   list_all (\<lambda>qp. distinct (ids_of qp)) (union_stack stack)"
  by (induction stack rule: union_stack.induct) (simp_all add: get_union_distinct)

lemma evaluate_distinct:
  "evaluate index tokens = Inr (index', ranked_docs) \<Longrightarrow> distinct (ids_of ranked_docs)"
proof -
  assume e: "evaluate index tokens = Inr (index', ranked_docs)"
  then obtain idx stack op' where
    p: "process_tokens (index, [], []) tokens = Inr (idx, stack, op')"
    and u: "\<exists>rest. union_stack stack = ranked_docs # rest"
    by (auto simp: evaluate_def split: sum.splits list.splits)
  have "list_all (\<lambda>qp. distinct (ids_of qp)) stack"
    using process_tokens_distinct [OF _ p] by simp
  from union_stack_distinct [OF this] u show ?thesis by auto
qed

text \<open>
  Claim C8. For every accepted query (the tokeniser returned tokens and
  \<open>validate_query\<close> accepted them), the evaluation runs to its end without a
  fault and leaves the index as it was: the same table, the same entries in
  the same queues, the same documents with the same counts in the same order.
  Evaluating the query again on the index the first evaluation left therefore
  gives the same ranked documents with the same scores.
\<close>

theorem C8_index_unchanged:
  assumes "tokenize_query query = Some tokens" and "validate_query tokens = Some True"
  shows "\<exists>ranked_docs.
           evaluate index tokens = Inr (index, ranked_docs)
         \<and> (case evaluate index tokens of
              Inr (index', r) \<Rightarrow> evaluate index' tokens = Inr (index, ranked_docs)
            | Inl f \<Rightarrow> False)"
proof -
  from evaluate_accepted [OF assms(2), of index]
  obtain ranked_docs where "evaluate index tokens = Inr (index, ranked_docs)" by blast
  then show ?thesis by auto
qed

text \<open>
  An index as \<open>indexload\<close> builds it, in a table of \<open>hsize\<close> queues: \<open>cat\<close>
  occurs twice in page 1 and once in page 2, \<open>dog\<close> five times in page 2.
\<close>

definition example_index :: "entry table" where
  "example_index =
     hput (hput (the (hopen hsize))
       \<lparr>word = ''cat'', documents = [new_doc 1 2, new_doc 2 1]\<rparr> ''cat'' 3)
       \<lparr>word = ''dog'', documents = [new_doc 2 5]\<rparr> ''dog'' 3"

lemma evaluate_example:
  "evaluate example_index [''cat'', ''and'', ''dog''] = Inr (example_index, [init_doc 2 1])"
  by code_simp

text \<open>
  An index whose file holds the lines \<open>cat 1 2147483647\<close> and \<open>dog 1 1\<close>:
  the query \<open>dog or cat\<close> adds the two counts of page 1, and the sum does
  not fit an \<open>int\<close>.
\<close>

definition overflow_index :: "entry table" where
  "overflow_index =
     hput (hput (the (hopen hsize))
       \<lparr>word = ''cat'', documents = [new_doc 1 2147483647]\<rparr> ''cat'' 3)
       \<lparr>word = ''dog'', documents = [new_doc 1 1]\<rparr> ''dog'' 3"

lemma evaluate_overflow:
  "evaluate overflow_index [''dog'', ''or'', ''cat'']
     = Inr (overflow_index, [init_doc 1 (- 2147483648)])"
  by code_simp

theorem C8_index_unchanged_witness:
  "tokenize_query ''cat dog'' = Some [''cat'', ''and'', ''dog'']
   \<and> validate_query [''cat'', ''and'', ''dog''] = Some True
   \<and> evaluate example_index [''cat'', ''and'', ''dog''] = Inr (example_index, [init_doc 2 1])"
proof -
  have h1: "tokenize_query ''cat dog'' = Some [''cat'', ''and'', ''dog'']"
    by code_simp
  have h2: "validate_query [''cat'', ''and'', ''dog''] = Some True"
    by simp
  show ?thesis
    using C8_index_unchanged [OF h1 h2, of example_index] evaluate_example h1 h2 by simp
qed


section \<open>Decimal numbers in files (\<open>%d\<close>, \<open>atoi\<close>)\<close>

text \<open>
  \<open>fprintf("%d")\<close> writes an \<open>int\<close> in decimal, with a minus sign when it is
  negative. \<open>atoi\<close> and \<open>fscanf("%d")\<close> skip white space, take an optional
  sign and then the longest run of digits; \<open>atoi\<close> returns 0 when there is no
  digit, \<open>fscanf\<close> reports a matching failure. Both convert the digits as
  \<open>strtol\<close> does, to a \<open>long\<close> that stops at \<open>LONG_MAX\<close> and \<open>LONG_MIN\<close>,
  and store that in an \<open>int\<close>, which keeps the low 32 bits: the name
  \<open>4294967297\<close> is read as 1. (ISO C leaves the result undefined when the
  number is not in the range of \<open>int\<close>; this is the result with glibc, the
  C library of the systems the programs are written for.)
\<close>

definition digit_char :: "nat \<Rightarrow> char" where
  "digit_char d = char_of (48 + d)"

definition digit_val :: "char \<Rightarrow> int" where
  "digit_val c = int (of_char c) - 48"

fun show_nat :: "nat \<Rightarrow> string" where
  "show_nat n = (if n < 10 then [digit_char n] else show_nat (n div 10) @ [digit_char (n mod 10)])"

declare show_nat.simps [simp del]

definition show_int :: "int \<Rightarrow> string" where
  "show_int i = (if i < 0 then CHR ''-'' # show_nat (nat (- i)) else show_nat (nat i))"

definition digits_val :: "string \<Rightarrow> int" where
  "digits_val ds = foldl (\<lambda>acc c. 10 * acc + digit_val c) 0 ds"

definition strtol_value :: "bool \<Rightarrow> string \<Rightarrow> int" where
  "strtol_value neg ds =
     (let v = (if neg then - digits_val ds else digits_val ds)
      in if LONG_MAX < v then LONG_MAX else if v < LONG_MIN then LONG_MIN else v)"

definition scan_number :: "string \<Rightarrow> (int \<times> string) option" where
  "scan_number s =
     (let s1 = dropWhile isspace s;
          neg = (s1 \<noteq> [] \<and> hd s1 = CHR ''-'');
          s2 = (if s1 \<noteq> [] \<and> (hd s1 = CHR ''-'' \<or> hd s1 = CHR ''+'') then tl s1 else s1);
          ds = takeWhile isdigit s2
      in if ds = [] then None
         else Some (to_int (strtol_value neg ds), dropWhile isdigit s2))"

definition atoi :: "string \<Rightarrow> int" where
  "atoi s = (case scan_number s of None \<Rightarrow> 0 | Some (v, rest) \<Rightarrow> v)"

lemma atoi_low_bits:
  "atoi ''4294967297'' = 1 \<and> atoi ''2147483648'' = - 2147483648 \<and> atoi ''-12x'' = - 12
   \<and> atoi ''99999999999999999999'' = - 1"
  by code_simp

section \<open>Page files (pageio.c)\<close>

text \<open>
  Modelled from the spec: the \<open>WebPage\<close> facility (webpage.c) is not among the
  sources. A page is the record of its url, depth and html with the html's
  length; the getters are the fields; \<open>webpage_new\<close> builds the record from a
  url, a depth and the html as a C string, and gives NULL for a depth below 0,
  which no PageRecord has.
\<close>

record webpage =
  webpage_getURL :: string
  webpage_getDepth :: int
  webpage_getHTMLlen :: int
  webpage_getHTML :: string

definition webpage_new :: "string \<Rightarrow> int \<Rightarrow> string \<Rightarrow> webpage option" where
  "webpage_new u d h =
     (if d < 0 then None
      else Some \<lparr>webpage_getURL = u, webpage_getDepth = d,
                 webpage_getHTMLlen = int (length h), webpage_getHTML = h\<rparr>)"

text \<open>
  A directory is the list of its files, name and contents, in the order
  \<open>readdir\<close> lists them, with a flag for whether files can be created in it.
  \<open>fopen(path, "r")\<close> of a missing file fails (\<open>None\<close>); \<open>fopen(path, "w")\<close>
  fails in a directory that is not writable, and otherwise the file is created
  or replaced.
\<close>

record directory =
  writable :: bool
  files :: "(string \<times> string) list"

definition fopen_r :: "directory \<Rightarrow> string \<Rightarrow> string option" where
  "fopen_r dir name = map_of (files dir) name"

definition file_write :: "directory \<Rightarrow> string \<Rightarrow> string \<Rightarrow> directory" where
  "file_write dir name text =
     dir\<lparr>files := (if name \<in> fst ` set (files dir)
                     then map (\<lambda>(n, t). if n = name then (n, text) else (n, t)) (files dir)
                     else files dir @ [(name, text)])\<rparr>"

text \<open>
  \<open>pagesave\<close>: the file named by the id receives
  \<open>fprintf(file, "%s\n%d\n%d\n%s", url, depth, len, html)\<close>. The result is the
  status and the directory afterwards.
\<close>

definition page_text :: "webpage \<Rightarrow> string" where
  "page_text pagep =
     webpage_getURL pagep @ [CHR 0x0A] @ show_int (webpage_getDepth pagep) @ [CHR 0x0A]
       @ show_int (webpage_getHTMLlen pagep) @ [CHR 0x0A] @ webpage_getHTML pagep"

definition pagesave :: "webpage \<Rightarrow> int \<Rightarrow> directory \<Rightarrow> int \<times> directory" where
  "pagesave pagep i dirnm =
     (if \<not> writable dirnm then (1, dirnm)
      else (0, file_write dirnm (show_int i) (page_text pagep)))"

text \<open>
  The \<open>fscanf\<close> directives of \<open>pageload\<close> on the bytes not yet read: \<open>%s\<close>
  skips white space and takes the bytes up to the next white space (none left:
  \<open>EOF\<close>, here \<open>None\<close>) into a buffer of 1024 bytes; \<open>%d\<close> is \<open>scan_number\<close>;
  the \<open>\n\<close> that ends each format skips all the white space that follows.
\<close>

definition scan_string :: "string \<Rightarrow> (string \<times> string) option" where
  "scan_string s =
     (let s1 = dropWhile isspace s
      in if s1 = [] then None
         else Some (takeWhile (\<lambda>c. \<not> isspace c) s1, dropWhile (\<lambda>c. \<not> isspace c) s1))"

definition skip_space :: "string \<Rightarrow> string" where
  "skip_space s = dropWhile isspace s"

text \<open>
  The html loop \<open>while ((c = fgetc(file)) != EOF && idx < html_length)\<close> stops
  at the end of the file, after \<open>html_length\<close> bytes, and, \<open>c\<close> being a (signed)
  \<open>char\<close>, at a byte \<open>0xFF\<close>, which compares equal to \<open>EOF\<close>. The buffer
  is passed on as a C string, which ends at its first NUL.
\<close>

definition read_html :: "string \<Rightarrow> int \<Rightarrow> string" where
  "read_html s html_length =
     takeWhile (\<lambda>c. c \<noteq> NUL) (take (nat html_length) (takeWhile (\<lambda>c. c \<noteq> CHR 0xFF) s))"

definition pageload :: "int \<Rightarrow> directory \<Rightarrow> fault + webpage option" where
  "pageload i dirnm =
     (case fopen_r dirnm (show_int i) of
        None \<Rightarrow> Inr None
      | Some text \<Rightarrow>
          (case scan_string text of
             None \<Rightarrow> Inr None
           | Some (u, s1) \<Rightarrow>
               if 1024 \<le> length u then Inl BufferOverflow
               else
               (case scan_number (skip_space s1) of
                  None \<Rightarrow> Inr None
                | Some (d, s2) \<Rightarrow>
                    (case scan_number (skip_space s2) of
                       None \<Rightarrow> Inr None
                     | Some (html_length, s3) \<Rightarrow>
                         if html_length < 0 then Inl NegativeLength
                         else Inr (webpage_new u d (read_html (skip_space s3) html_length))))))"

section \<open>Metadata and output (query.c)\<close>

text \<open>
  \<open>strstr\<close> and \<open>strchr\<close> return a pointer to the first occurrence, here the
  rest of the string from there on, or NULL.
\<close>

fun strstr :: "string \<Rightarrow> string \<Rightarrow> string option" where
  "strstr [] needle = (if needle = [] then Some [] else None)"
| "strstr (c # cs) needle =
     (if take (length needle) (c # cs) = needle then Some (c # cs) else strstr cs needle)"

fun strchr :: "string \<Rightarrow> char \<Rightarrow> string option" where
  "strchr [] ch = None"
| "strchr (c # cs) ch = (if c = ch then Some (c # cs) else strchr cs ch)"

definition extract_title :: "string \<Rightarrow> string option" where
  "extract_title h =
     (case strstr h ''<title>'' of
        None \<Rightarrow> None
      | Some start \<Rightarrow>
          (case strstr start ''</title>'' of
             None \<Rightarrow> None
           | Some end' \<Rightarrow>
               let len = int (length start) - int (length end') - strlen ''<title>''
               in Some (take (nat len) (drop 7 start))))"

definition extract_content :: "string \<Rightarrow> string option" where
  "extract_content h =
     (case strstr h (''<meta name='' @ [CHR 0x22] @ ''description'' @ [CHR 0x22]) of
        None \<Rightarrow> None
      | Some start \<Rightarrow>
          (case strstr start (''content='' @ [CHR 0x22]) of
             None \<Rightarrow> None
           | Some c0 \<Rightarrow>
               let content = drop 9 c0 in
               (case strchr content (CHR 0x22) of
                  None \<Rightarrow> None
                | Some end' \<Rightarrow>
                    let len = int (length content) - int (length end');
                        len = (if len > 128 then 128 else len)
                    in Some (take (nat len) content))))"

text \<open>
  \<open>get_metadata\<close> takes the ranked documents one by one; when the page of the
  document loads, the url is copied and the title and the description are
  filled in where their markers are found; a field not set stays NULL. The
  documents pass through \<open>tmp\<close> back into \<open>ranked_docs\<close>.
\<close>

definition set_metadata :: "rankedDoc \<Rightarrow> webpage option \<Rightarrow> rankedDoc" where
  "set_metadata dp page =
     (case page of
        None \<Rightarrow> dp
      | Some p \<Rightarrow>
          dp\<lparr>url := Some (webpage_getURL p),
             title := (case extract_title (webpage_getHTML p) of None \<Rightarrow> title dp | Some t \<Rightarrow> Some t),
             content := (case extract_content (webpage_getHTML p) of None \<Rightarrow> content dp | Some c \<Rightarrow> Some c)\<rparr>)"

fun metadata_loop :: "rankedDoc list \<Rightarrow> directory \<Rightarrow> rankedDoc list \<Rightarrow> fault + rankedDoc list" where
  "metadata_loop [] pagedir tmp = Inr tmp"
| "metadata_loop (dp # ranked_docs) pagedir tmp =
     (case pageload (doc_id dp) pagedir of
        Inl f \<Rightarrow> Inl f
      | Inr page \<Rightarrow> metadata_loop ranked_docs pagedir (qput tmp (set_metadata dp page)))"

definition get_metadata :: "rankedDoc list \<Rightarrow> directory \<Rightarrow> fault + rankedDoc list" where
  "get_metadata ranked_docs pagedir =
     (case metadata_loop ranked_docs pagedir [] of
        Inl f \<Rightarrow> Inl f
      | Inr tmp \<Rightarrow> Inr (restore_loop [] tmp))"

text \<open>
  \<open>sort_queue\<close> sorts with \<open>qsort\<close> and a comparator that puts the larger
  \<open>word_count\<close> first. \<open>qsort\<close> leaves the order of documents with equal scores
  open; the model keeps them in their order in the queue.
\<close>

definition sort_queue :: "rankedDoc list \<Rightarrow> rankedDoc list" where
  "sort_queue qp = sort_key (\<lambda>d. - word_count d) qp"

text \<open>
  The output loop prints each document with
  \<open>printf("title: %s\nrank:%d doc:%d : %s\n", ...)\<close> and \<open>printf("%s...\n\n", ...)\<close>.
  A field still NULL is passed to \<open>%s\<close> as it is: ISO C leaves that undefined,
  and the C library of the systems the program is written for (glibc) prints
  \<open>(null)\<close>.
\<close>

definition printf_s :: "string option \<Rightarrow> string" where
  "printf_s p = (case p of None \<Rightarrow> ''(null)'' | Some s \<Rightarrow> s)"

definition print_doc :: "rankedDoc \<Rightarrow> string" where
  "print_doc doc =
     ''title: '' @ printf_s (title doc) @ [CHR 0x0A]
     @ ''rank:'' @ show_int (word_count doc) @ '' doc:'' @ show_int (doc_id doc)
     @ '' : '' @ printf_s (url doc) @ [CHR 0x0A]
     @ printf_s (content doc) @ ''...'' @ [CHR 0x0A, CHR 0x0A]"

definition print_docs :: "rankedDoc list \<Rightarrow> string" where
  "print_docs ranked_docs = concat (map print_doc ranked_docs)"

subsection \<open>One turn of the loop of \<open>main\<close>\<close>

text \<open>
  What \<open>main\<close> does with one line of the standard input, the bytes before
  its newline. \<open>get_input\<close> sets \<open>buffer[0]\<close> to NUL and reads the line with
  \<open>scanf("%[^\n]", buffer)\<close>, which stores the bytes of the line, a NUL byte
  among them like any other, and a NUL after them; the directive has no field
  width, so a line of \<open>MAX_QUERY_LEN\<close> bytes or more overruns the buffer
  \<open>query\<close>. \<open>main\<close> reads the buffer as a C string: the query is the line up
  to its first NUL byte. An empty query (\<open>!query[0]\<close>) is skipped; a query
  the tokeniser or \<open>validate_query\<close> rejects prints \<open>[invalid query]\<close>; any
  other is evaluated, ranked and printed. The result is the text written to
  the standard output after the prompt and the index afterwards.
\<close>

definition MAX_QUERY_LEN :: nat where
  "MAX_QUERY_LEN = 512"

datatype action = Ignore | Reject | Evaluate "string list"

definition classify :: "string \<Rightarrow> action" where
  "classify buffer =
     (let query = cstring buffer in
      if query = [] then Ignore
      else
        (case tokenize_query query of
           None \<Rightarrow> Reject
         | Some tokenized_query \<Rightarrow>
             if validate_query tokenized_query = Some True then Evaluate tokenized_query
             else Reject))"

definition evaluate_and_print ::
  "directory \<Rightarrow> entry table \<Rightarrow> string list \<Rightarrow> fault + (string \<times> entry table)" where
  "evaluate_and_print pagedir index tokens =
     (case evaluate index tokens of
        Inl f \<Rightarrow> Inl f
      | Inr (index', ranked_docs) \<Rightarrow>
          (case get_metadata ranked_docs pagedir of
             Inl f \<Rightarrow> Inl f
           | Inr docs \<Rightarrow> Inr (print_docs (sort_queue docs), index')))"

definition invalid_query_line :: string where
  "invalid_query_line = ''[invalid query]'' @ [CHR 0x0A]"

definition main_iteration ::
  "directory \<Rightarrow> entry table \<Rightarrow> string \<Rightarrow> fault + (string \<times> entry table)" where
  "main_iteration pagedir index line =
     (if MAX_QUERY_LEN \<le> length line then Inl BufferOverflow
      else
        (case classify line of
           Ignore \<Rightarrow> Inr ([], index)
         | Reject \<Rightarrow> Inr (invalid_query_line, index)
         | Evaluate tokens \<Rightarrow> evaluate_and_print pagedir index tokens))"

subsection \<open>The validity rules as the specification words them\<close>

text \<open>
  Written from the specification: a token stream is valid when it is not empty,
  its first and last tokens are not operators, and no two operators are
  adjacent; a query with a token that has a non-alphabetic byte is rejected
  whole.
\<close>

fun spec_no_adjacent_operators :: "string list \<Rightarrow> bool" where
  "spec_no_adjacent_operators (t # u # ts) =
     (\<not> (is_operator t \<and> is_operator u) \<and> spec_no_adjacent_operators (u # ts))"
| "spec_no_adjacent_operators ts = True"

definition spec_valid :: "string list \<Rightarrow> bool" where
  "spec_valid ts =
     (ts \<noteq> [] \<and> \<not> is_operator (hd ts) \<and> \<not> is_operator (last ts)
      \<and> spec_no_adjacent_operators ts)"

definition spec_all_alphabetic :: "string \<Rightarrow> bool" where
  "spec_all_alphabetic query = list_all (list_all isalpha) (spec_raw_tokens query)"

definition spec_accepted :: "string \<Rightarrow> bool" where
  "spec_accepted query = (spec_all_alphabetic query \<and> spec_valid (spec_token_stream query))"

lemma validate_loop_spec: "validate_loop ts = spec_no_adjacent_operators ts"
  by (induction ts rule: validate_loop.induct) (auto simp: is_operator_def)

lemma validate_query_spec: "(validate_query ts = Some True) = spec_valid ts"
  by (cases ts) (auto simp: spec_valid_def validate_loop_spec is_operator_def)

lemma classify_spec:
  assumes "cstring buffer \<noteq> []"
  shows "classify buffer =
           (if spec_accepted (cstring buffer) then Evaluate (spec_token_stream (cstring buffer))
            else Reject)"
proof (cases "spec_all_alphabetic (cstring buffer)")
  case False
  then have "\<exists>t\<in>set (spec_raw_tokens (cstring buffer)). \<not> list_all isalpha t"
    by (simp add: spec_all_alphabetic_def list_all_iff)
  then have "tokenize_query (cstring buffer) = None" by (simp add: tokenize_query_spec)
  then show ?thesis using assms False by (simp add: classify_def spec_accepted_def)
next
  case True
  then have "\<not> (\<exists>t\<in>set (spec_raw_tokens (cstring buffer)). \<not> list_all isalpha t)"
    by (simp add: spec_all_alphabetic_def list_all_iff)
  then have t: "tokenize_query (cstring buffer) =
      (if spec_token_stream (cstring buffer) = [] then None
       else Some (spec_token_stream (cstring buffer)))"
    by (simp add: tokenize_query_spec)
  show ?thesis
  proof (cases "spec_token_stream (cstring buffer) = []")
    case e: True
    then show ?thesis using assms t by (simp add: classify_def spec_accepted_def spec_valid_def)
  next
    case False
    then show ?thesis using assms t True
      by (simp add: classify_def spec_accepted_def validate_query_spec)
  qed
qed

lemma cstring_no_NUL: "NUL \<notin> set buffer \<Longrightarrow> cstring buffer = buffer"
  unfolding cstring_def by (simp only: takeWhile_eq_all_conv) blast

text \<open>
  Claim C5, as amended. For every input line of fewer than 512 bytes, the
  query is the line up to its first NUL byte (the whole line when it has
  none). An empty query is skipped: \<open>main\<close> prints nothing and prompts again.
  A query that is not empty is accepted (goes on to evaluation, with the token
  stream of the specification) if and only if all its tokens are alphabetic
  and the token stream is not empty, does not begin or end with an operator
  and has no two adjacent operators; every other one makes \<open>main\<close> print
  exactly the line \<open>[invalid query]\<close>, leave the index alone and go on to the
  next prompt without evaluating.
\<close>

theorem C5_validate:
  assumes "length line < MAX_QUERY_LEN" and "CHR 0x0A \<notin> set line"
  shows "(NUL \<notin> set line \<longrightarrow> cstring line = line)
       \<and> (cstring line = [] \<longrightarrow>
            classify line = Ignore \<and> main_iteration pagedir index line = Inr ([], index))
       \<and> (cstring line \<noteq> [] \<longrightarrow>
            ((\<exists>tokens. classify line = Evaluate tokens) = spec_accepted (cstring line))
            \<and> (spec_accepted (cstring line) \<longrightarrow>
                 classify line = Evaluate (spec_token_stream (cstring line))
                 \<and> main_iteration pagedir index line =
                     evaluate_and_print pagedir index (spec_token_stream (cstring line)))
            \<and> (\<not> spec_accepted (cstring line) \<longrightarrow>
                 classify line = Reject
                 \<and> main_iteration pagedir index line = Inr (invalid_query_line, index)))"
proof -
  have a: "NUL \<notin> set line \<longrightarrow> cstring line = line"
    by (simp add: cstring_no_NUL)
  have b: "classify line = Ignore \<and> main_iteration pagedir index line = Inr ([], index)"
    if "cstring line = []"
    using that assms(1) by (simp add: classify_def main_iteration_def)
  have c: "((\<exists>tokens. classify line = Evaluate tokens) = spec_accepted (cstring line))
            \<and> (spec_accepted (cstring line) \<longrightarrow>
                 classify line = Evaluate (spec_token_stream (cstring line))
                 \<and> main_iteration pagedir index line =
                     evaluate_and_print pagedir index (spec_token_stream (cstring line)))
            \<and> (\<not> spec_accepted (cstring line) \<longrightarrow>
                 classify line = Reject
                 \<and> main_iteration pagedir index line = Inr (invalid_query_line, index))"
    if "cstring line \<noteq> []"
    using classify_spec [OF that] assms(1) by (simp add: main_iteration_def)
  show ?thesis using a b c by blast
qed

theorem C5_validate_witness:
  "length ''and cat'' < MAX_QUERY_LEN \<and> CHR 0x0A \<notin> set ''and cat''
   \<and> NUL \<notin> set ''and cat'' \<and> \<not> spec_accepted ''and cat''
   \<and> main_iteration \<lparr>writable = True, files = []\<rparr> example_index ''and cat''
       = Inr (''[invalid query]'' @ [CHR 0x0A], example_index)
   \<and> length ''Cat  dog'' < MAX_QUERY_LEN \<and> CHR 0x0A \<notin> set ''Cat  dog''
   \<and> NUL \<notin> set ''Cat  dog'' \<and> spec_accepted ''Cat  dog''
   \<and> classify ''Cat  dog'' = Evaluate [''cat'', ''and'', ''dog'']
   \<and> length ([] :: string) < MAX_QUERY_LEN \<and> cstring [] = []
   \<and> main_iteration \<lparr>writable = True, files = []\<rparr> example_index [] = Inr ([], example_index)"
proof -
  have l: "length ''and cat'' < MAX_QUERY_LEN" "length ''Cat  dog'' < MAX_QUERY_LEN"
    "length ([] :: string) < MAX_QUERY_LEN"
    by (simp_all add: MAX_QUERY_LEN_def)
  have n: "CHR 0x0A \<notin> set ''and cat''" "CHR 0x0A \<notin> set ''Cat  dog''"
    "CHR 0x0A \<notin> set ([] :: string)"
    by simp_all
  have z: "NUL \<notin> set ''and cat''" "NUL \<notin> set ''Cat  dog''"
    by code_simp+
  have e: "cstring [] = []" by (simp add: cstring_def)
  have a: "\<not> spec_accepted ''and cat''" by code_simp
  have b: "spec_accepted ''Cat  dog''" by code_simp
  have c: "spec_token_stream ''Cat  dog'' = [''cat'', ''and'', ''dog'']" by code_simp
  have ne: "''and cat'' \<noteq> []" "''Cat  dog'' \<noteq> []" by simp_all
  show ?thesis
    using C5_validate [OF l(1) n(1), of "\<lparr>writable = True, files = []\<rparr>" example_index]
      C5_validate [OF l(2) n(2), of "\<lparr>writable = True, files = []\<rparr>" example_index]
      C5_validate [OF l(3) n(3), of "\<lparr>writable = True, files = []\<rparr>" example_index]
      l z e a b c ne
    by (simp add: invalid_query_line_def)
qed

text \<open>
  The claim as it was stated, for every input query and with \<open>[invalid query]\<close>
  for every query that has a non-alphabetic character, fails at a line with a
  NUL byte, which cuts the query short: the line \<open>cat\0!!\<close> has the single
  token \<open>cat\0!!\<close>, which is not alphabetic, and \<open>main\<close> evaluates the query
  \<open>cat\<close> and prints its two documents; the line \<open>\0\<close> is skipped with no
  output.
\<close>

theorem C5_nul_byte_counterexample:
  "length (''cat'' @ [NUL] @ ''!!'') < MAX_QUERY_LEN
   \<and> CHR 0x0A \<notin> set (''cat'' @ [NUL] @ ''!!'')
   \<and> \<not> spec_all_alphabetic (''cat'' @ [NUL] @ ''!!'')
   \<and> \<not> spec_accepted (''cat'' @ [NUL] @ ''!!'')
   \<and> classify (''cat'' @ [NUL] @ ''!!'') = Evaluate [''cat'']
   \<and> main_iteration \<lparr>writable = True, files = []\<rparr> example_index (''cat'' @ [NUL] @ ''!!'')
       = Inr (print_docs [init_doc 1 2, init_doc 2 1], example_index)
   \<and> main_iteration \<lparr>writable = True, files = []\<rparr> example_index (''cat'' @ [NUL] @ ''!!'')
       \<noteq> Inr (''[invalid query]'' @ [CHR 0x0A], example_index)
   \<and> \<not> spec_accepted [NUL]
   \<and> main_iteration \<lparr>writable = True, files = []\<rparr> example_index [NUL]
       = Inr ([], example_index)"
  by code_simp


section \<open>Absent metadata in the output\<close>

definition plain_page :: webpage where
  "plain_page = \<lparr>webpage_getURL = ''http://a.b/c'', webpage_getDepth = 1,
     webpage_getHTMLlen = 21, webpage_getHTML = ''<html>cat dog</html>'' @ [CHR 0x0A]\<rparr>"

text \<open>
  Claim C7 says that a ranked document whose page is missing, or whose html
  lacks the markers, is printed with an empty string in the slot of each
  missing field. The code leaves such a field NULL and passes the NULL
  pointer to \<open>printf("%s")\<close>: the document is printed, with \<open>(null)\<close> in the
  slot. Here document 7 (score 3) has no page file, and document 2 has the
  page \<open>plain_page\<close>, without title and description.
\<close>

theorem C7_missing_fields_print_null:
  "get_metadata [init_doc 7 3] \<lparr>writable = True, files = []\<rparr> = Inr [init_doc 7 3]
   \<and> print_docs (sort_queue [init_doc 7 3]) =
        ''title: (null)'' @ [CHR 0x0A] @ ''rank:3 doc:7 : (null)'' @ [CHR 0x0A]
        @ ''(null)...'' @ [CHR 0x0A, CHR 0x0A]
   \<and> get_metadata [init_doc 2 5] (snd (pagesave plain_page 2 \<lparr>writable = True, files = []\<rparr>))
        = Inr [(init_doc 2 5)\<lparr>url := Some ''http://a.b/c''\<rparr>]
   \<and> print_docs (sort_queue [(init_doc 2 5)\<lparr>url := Some ''http://a.b/c''\<rparr>]) =
        ''title: (null)'' @ [CHR 0x0A] @ ''rank:5 doc:2 : http://a.b/c'' @ [CHR 0x0A]
        @ ''(null)...'' @ [CHR 0x0A, CHR 0x0A]"
  by code_simp

section \<open>Saving and loading a page\<close>

definition spaced_page :: webpage where
  "spaced_page = \<lparr>webpage_getURL = ''http://a.b/'', webpage_getDepth = 0,
     webpage_getHTMLlen = 15, webpage_getHTML = [CHR 0x0A] @ ''<html>x</html>''\<rparr>"

text \<open>
  Claim C2 says that \<open>pagesave\<close> followed by \<open>pageload\<close> gives back the url,
  the depth, the html length and the html. \<open>pageload\<close> reads the length with
  \<open>fscanf(file, "%d\n", &html_length)\<close>, and the \<open>\n\<close> of that format skips
  every white-space byte that follows the number, so white space at the start
  of the html is lost: \<open>spaced_page\<close>, whose html of 15 bytes begins with a
  newline, comes back without the newline, with an html of 14 bytes.
\<close>

theorem C2_leading_space_lost:
  "pagesave spaced_page 1 \<lparr>writable = True, files = []\<rparr>
     = (0, \<lparr>writable = True,
            files = [(''1'', ''http://a.b/'' @ [CHR 0x0A] @ ''0'' @ [CHR 0x0A] @ ''15''
                              @ [CHR 0x0A] @ [CHR 0x0A] @ ''<html>x</html>'')]\<rparr>)
   \<and> pageload 1 (snd (pagesave spaced_page 1 \<lparr>writable = True, files = []\<rparr>))
     = Inr (Some \<lparr>webpage_getURL = ''http://a.b/'', webpage_getDepth = 0,
                  webpage_getHTMLlen = 14, webpage_getHTML = ''<html>x</html>''\<rparr>)
   \<and> pageload 1 (snd (pagesave spaced_page 1 \<lparr>writable = True, files = []\<rparr>))
     \<noteq> Inr (Some spaced_page)"
  by code_simp


section \<open>The index file (indexio.c)\<close>

text \<open>
  \<open>indexsave\<close> writes, for each entry \<open>happly\<close> visits, the word and a space,
  then each document of the entry as \<open>"%d %d "\<close>, then a newline.
\<close>

definition doc_queue_write_fn :: "document \<Rightarrow> string" where
  "doc_queue_write_fn dp = show_int (doc_id dp) @ '' '' @ show_int (word_count dp) @ '' ''"

definition index_write_fn :: "entry \<Rightarrow> string" where
  "index_write_fn ep =
     word ep @ '' '' @ concat (map doc_queue_write_fn (documents ep)) @ [CHR 0x0A]"

definition index_text :: "entry table \<Rightarrow> string" where
  "index_text index = concat (map index_write_fn (happly index))"

definition indexsave :: "entry table \<Rightarrow> string \<Rightarrow> directory \<Rightarrow> int \<times> directory" where
  "indexsave index indexnm dir =
     (if \<not> writable dir then (1, dir)
      else (0, file_write dir indexnm (index_text index)))"

text \<open>
  \<open>fgets(buf, n, file)\<close> reads at most \<open>n - 1\<close> bytes and stops after a
  newline, which it keeps; at the end of the file it returns NULL.
\<close>

definition fgets :: "nat \<Rightarrow> string \<Rightarrow> (string \<times> string) option" where
  "fgets n s =
     (if s = [] then None
      else
        (let pre = take (n - 1) s;
             line = (if CHR 0x0A \<in> set pre
                     then takeWhile (\<lambda>c. c \<noteq> CHR 0x0A) pre @ [CHR 0x0A]
                     else pre)
         in Some (line, drop (length line) s)))"

definition MAX_LINE_LEN :: nat where
  "MAX_LINE_LEN = 1024"

text \<open>
  The inner loop of \<open>indexload\<close> takes the tokens of the line two at a time,
  an id and a count. When the tokens run out after an id, \<open>atoi\<close> is called on
  the NULL pointer \<open>strtok\<close> returned.
\<close>

function read_postings :: "document list \<Rightarrow> string \<Rightarrow> fault + document list" where
  "read_postings docs buf =
     (case strtok '' '' buf of
        None \<Rightarrow> Inr docs
      | Some (token, buf1) \<Rightarrow>
          (case strtok '' '' buf1 of
             None \<Rightarrow> Inl NullDereference
           | Some (token2, buf2) \<Rightarrow>
               read_postings (qput docs (new_doc (atoi token) (atoi token2))) buf2))"
  by pat_completeness auto
termination
proof (relation "measure (\<lambda>(docs, buf). length buf)")
  show "wf (measure (\<lambda>(docs, buf). length buf))" by simp
next
  fix docs :: "document list" and buf x2 token buf1 x2a token2 buf2
  assume "strtok '' '' buf = Some x2" "(token, buf1) = x2"
    "strtok '' '' buf1 = Some x2a" "(token2, buf2) = x2a"
  then have "length buf1 < length buf" "length buf2 < length buf1"
    using strtok_shorter by metis+
  then show "((qput docs (new_doc (atoi token) (atoi token2)), buf2), docs, buf)
      \<in> measure (\<lambda>(docs, buf). length buf)" by simp
qed

declare read_postings.simps [simp del]

lemma fgets_shorter: "1 < n \<Longrightarrow> fgets n s = Some (line, rest) \<Longrightarrow> length rest < length s"
  by (cases s) (auto simp: fgets_def Let_def split: if_splits)

text \<open>
  The outer loop: one \<open>fgets\<close> per turn; the line is cut at the first \<open>\r\<close> or
  \<open>\n\<close>; its first token is the word of a new entry, which is put into the
  table, and the postings that follow are appended to the entry's queue through
  the pointer \<open>ep\<close>. A line without a token gives \<open>new_entry(NULL)\<close> and
  \<open>strlen(NULL)\<close>.
\<close>

function indexload_loop :: "entry table \<Rightarrow> string \<Rightarrow> fault + entry table" where
  "indexload_loop index file =
     (case fgets MAX_LINE_LEN file of
        None \<Rightarrow> Inr index
      | Some (line_buffer, rest) \<Rightarrow>
          (case strtok '' '' (takeWhile (\<lambda>c. c \<noteq> CHR 0x0D \<and> c \<noteq> CHR 0x0A) line_buffer) of
             None \<Rightarrow> Inl NullDereference
           | Some (token, buf) \<Rightarrow>
               (case read_postings [] buf of
                  Inl f \<Rightarrow> Inl f
                | Inr docs \<Rightarrow>
                    indexload_loop
                      (hput index ((new_entry token)\<lparr>documents := docs\<rparr>) token (strlen token))
                      rest)))"
  by pat_completeness auto
termination
proof (relation "measure (\<lambda>(index, fl). length fl)")
  show "wf (measure (\<lambda>(index, fl). length fl))" by simp
next
  fix index :: "entry table" and fl x2 line_buffer rest x2a token buf and docs :: "document list"
  assume "fgets MAX_LINE_LEN fl = Some x2" "(line_buffer, rest) = x2"
  then have "length rest < length fl"
    using fgets_shorter [of MAX_LINE_LEN fl line_buffer rest] by (simp add: MAX_LINE_LEN_def)
  then show "((hput index ((new_entry token)\<lparr>documents := docs\<rparr>) token (strlen token), rest), index, fl)
      \<in> measure (\<lambda>(index, fl). length fl)" by simp
qed

declare indexload_loop.simps [simp del]

definition indexload :: "string \<Rightarrow> directory \<Rightarrow> fault + entry table option" where
  "indexload indexnm dir =
     (case fopen_r dir indexnm of
        None \<Rightarrow> Inr None
      | Some text \<Rightarrow>
          (case hopen hsize of
             None \<Rightarrow> Inl NullDereference
           | Some index \<Rightarrow>
               (case indexload_loop index text of Inl f \<Rightarrow> Inl f | Inr index' \<Rightarrow> Inr (Some index'))))"

text \<open>
  An index with one word of 1030 letters, found once in page 1, and the table
  \<open>indexload\<close> builds from the file \<open>indexsave\<close> writes for it.
\<close>

definition long_word :: string where
  "long_word = replicate 1030 (CHR ''a'')"

definition long_word_index :: "entry table" where
  "long_word_index =
     hput (the (hopen hsize)) \<lparr>word = long_word, documents = [new_doc 1 1]\<rparr>
       long_word (strlen long_word)"

definition reloaded_index :: "entry table" where
  "reloaded_index =
     hput
       (hput (the (hopen hsize)) \<lparr>word = replicate 1023 (CHR ''a''), documents = []\<rparr>
          (replicate 1023 (CHR ''a'')) 1023)
       \<lparr>word = replicate 7 (CHR ''a''), documents = [new_doc 1 1]\<rparr>
       (replicate 7 (CHR ''a'')) 7"

lemma table_ok_hopen: "table_ok (the (hopen hsize))"
  by (simp add: table_ok_def hopen_def hsize_def)

lemma happly_hopen: "happly (the (hopen hsize)) = ([] :: 'e list)"
  by (simp add: happly_def hopen_def hsize_def)

lemma table_ok_hput: "table_ok t \<Longrightarrow> table_ok (hput t e k l)"
  by (simp add: table_ok_def hput_def Let_def)

lemma concat_update_append:
  "i < length xs \<Longrightarrow>
   concat (xs[i := xs ! i @ [e]]) = concat (take i xs) @ xs ! i @ [e] @ concat (drop (Suc i) xs)"
  by (simp add: upd_conv_take_nth_drop)

lemma concat_split_at:
  "i < length xs \<Longrightarrow> concat xs = concat (take i xs) @ xs ! i @ concat (drop (Suc i) xs)"
  using id_take_nth_drop [of i xs] by (metis concat.simps(2) concat_append)

lemma happly_hput_set:
  assumes "table_ok t"
  shows "set (happly (hput t e k l)) = insert e (set (happly t))"
    and "length (happly (hput t e k l)) = Suc (length (happly t))"
proof -
  let ?h = "unat (SuperFastHash k l (tablesize t))"
  from assms have h: "?h < length (hash_table t)"
    using SuperFastHash_less [of "tablesize t" k l] by (simp add: table_ok_def)
  have len: "length (hash_table t) = unat (tablesize t)" using assms by (simp add: table_ok_def)
  have a: "happly (hput t e k l) = concat ((hash_table t)[?h := hash_table t ! ?h @ [e]])"
    using len by (simp add: happly_def hput_def Let_def qput_def)
  have b: "happly t = concat (hash_table t)" using len by (simp add: happly_def)
  show "set (happly (hput t e k l)) = insert e (set (happly t))"
    unfolding a b concat_update_append [OF h] using concat_split_at [OF h] by auto
  show "length (happly (hput t e k l)) = Suc (length (happly t))"
    unfolding a b concat_update_append [OF h] using concat_split_at [OF h, THEN arg_cong, of length]
    by simp
qed

lemma happly_single: "happly (hput (the (hopen hsize)) e k l) = [e]"
proof -
  have "length (happly (hput (the (hopen hsize)) e k l)) = 1"
    and "set (happly (hput (the (hopen hsize)) e k l)) = {e}"
    using happly_hput_set [OF table_ok_hopen, of e k l] by (simp_all add: happly_hopen)
  then show ?thesis
    by (cases "happly (hput (the (hopen hsize)) e k l)") auto
qed

lemma show_int_1: "show_int 1 = ''1''"
  by code_simp

lemma long_word_text:
  "index_text long_word_index = replicate 1030 (CHR ''a'') @ '' 1 1 '' @ [CHR 0x0A]"
  by (simp add: index_text_def long_word_index_def happly_single index_write_fn_def
      doc_queue_write_fn_def new_doc_def show_int_1 long_word_def)

lemma fgets_first:
  "fgets MAX_LINE_LEN (replicate 1030 (CHR ''a'') @ '' 1 1 '' @ [CHR 0x0A])
     = Some (replicate 1023 (CHR ''a''), replicate 7 (CHR ''a'') @ '' 1 1 '' @ [CHR 0x0A])"
proof -
  have r: "replicate 1030 (CHR ''a'') = replicate 1023 (CHR ''a'') @ replicate 7 (CHR ''a'')"
    by (simp add: replicate_add [symmetric])
  show ?thesis unfolding r by (simp add: fgets_def MAX_LINE_LEN_def Let_def)
qed

lemma strtok_letters:
  "0 < n \<Longrightarrow> strtok '' '' (replicate n (CHR ''a'') @ rest)
     = (case rest of [] \<Rightarrow> Some (replicate n (CHR ''a''), [])
        | c # cs \<Rightarrow> if c = CHR '' '' then Some (replicate n (CHR ''a''), cs)
                     else strtok '' '' (replicate n (CHR ''a'') @ rest))"
  by (cases n; cases rest) (auto simp: strtok_def Let_def takeWhile_append dropWhile_append)

lemma first_line:
  "strtok '' '' (takeWhile (\<lambda>c. c \<noteq> CHR 0x0D \<and> c \<noteq> CHR 0x0A) (replicate 1023 (CHR ''a'')))
     = Some (replicate 1023 (CHR ''a''), [])"
  using strtok_letters [of 1023 "[]"] by simp

lemma second_line:
  "fgets MAX_LINE_LEN (replicate 7 (CHR ''a'') @ '' 1 1 '' @ [CHR 0x0A])
     = Some (replicate 7 (CHR ''a'') @ '' 1 1 '' @ [CHR 0x0A], [])"
  "strtok '' '' (takeWhile (\<lambda>c. c \<noteq> CHR 0x0D \<and> c \<noteq> CHR 0x0A)
       (replicate 7 (CHR ''a'') @ '' 1 1 '' @ [CHR 0x0A]))
     = Some (replicate 7 (CHR ''a''), ''1 1 '')"
  "read_postings [] ''1 1 '' = Inr [new_doc 1 1]"
  "read_postings [] [] = Inr []"
  by code_simp+

text \<open>
  Claim C3 says that \<open>indexsave\<close> followed by \<open>indexload\<close> gives the index back.
  \<open>indexload\<close> reads the file with \<open>fgets\<close> into a buffer of 1024 bytes, so a
  line of 1023 bytes or more comes back in pieces, and each piece is taken for
  a line of its own. The index \<open>long_word_index\<close> holds one word of 1030
  letters, in page 1 once; reloaded, it holds an entry for the first 1023
  letters, without documents, and an entry for the last 7 letters with the
  posting.
\<close>

theorem C3_long_line_split:
  "indexload ''index'' (snd (indexsave long_word_index ''index'' \<lparr>writable = True, files = []\<rparr>))
     = Inr (Some reloaded_index)
   \<and> map word (happly long_word_index) = [long_word]
   \<and> set (map word (happly reloaded_index))
       = {replicate 1023 (CHR ''a''), replicate 7 (CHR ''a'')}
   \<and> reloaded_index \<noteq> long_word_index"
proof -
  have f: "fopen_r (snd (indexsave long_word_index ''index'' \<lparr>writable = True, files = []\<rparr>)) ''index''
      = Some (replicate 1030 (CHR ''a'') @ '' 1 1 '' @ [CHR 0x0A])"
    by (simp add: indexsave_def file_write_def fopen_r_def long_word_text)
  have l: "indexload_loop (the (hopen hsize)) (replicate 1030 (CHR ''a'') @ '' 1 1 '' @ [CHR 0x0A])
      = Inr reloaded_index"
    apply (subst indexload_loop.simps)
    apply (simp only: fgets_first option.case prod.case first_line second_line sum.case)
    apply (subst indexload_loop.simps)
    apply (simp only: second_line option.case prod.case sum.case)
    apply (subst indexload_loop.simps)
    apply (simp add: fgets_def reloaded_index_def new_entry_def strlen_def)
    done
  have o: "hopen hsize = Some (the (hopen hsize) :: entry table)"
    by (simp add: hopen_def hsize_def)
  have a: "indexload ''index'' (snd (indexsave long_word_index ''index'' \<lparr>writable = True, files = []\<rparr>))
     = Inr (Some reloaded_index)"
    unfolding indexload_def f by (subst o) (use l in simp)
  have b: "map word (happly long_word_index) = [long_word]"
    by (simp add: long_word_index_def happly_single)
  have c: "set (map word (happly reloaded_index))
       = {replicate 1023 (CHR ''a''), replicate 7 (CHR ''a'')}"
    unfolding reloaded_index_def
    by (simp add: happly_hput_set(1) table_ok_hput table_ok_hopen happly_hopen insert_commute)
  have "length (happly reloaded_index) = 2" "length (happly long_word_index) = 1"
    unfolding reloaded_index_def long_word_index_def
    by (simp_all add: happly_hput_set(2) table_ok_hput table_ok_hopen happly_hopen)
  then have d: "reloaded_index \<noteq> long_word_index" by auto
  show ?thesis using a b c d by simp
qed


section \<open>The indexer (indexer.c)\<close>

text \<open>
  \<open>NormalizeWord\<close> of the indexer works in the buffer of the word: it writes
  NUL over the first byte when the word is shorter than 3 bytes (and goes on),
  then walks the \<open>len\<close> bytes, writes NUL over the first byte and returns at a
  byte that is not alphabetic, and lowercases every byte before that. The
  buffer is the list of the \<open>len\<close> bytes; the word the caller sees afterwards is
  the C string in it, which ends at the first NUL.
\<close>

function indexer_NormalizeWord_loop :: "nat \<Rightarrow> nat \<Rightarrow> string \<Rightarrow> string" where
  "indexer_NormalizeWord_loop i len wordbuf =
     (if i < len then
        (if \<not> isalpha (wordbuf ! i) then wordbuf[0 := NUL]
         else indexer_NormalizeWord_loop (i + 1) len (wordbuf[i := tolower (wordbuf ! i)]))
      else wordbuf)"
  by pat_completeness auto
termination
  by (relation "measure (\<lambda>(i, len, wordbuf). len - i)") simp_all

declare indexer_NormalizeWord_loop.simps [simp del]

definition indexer_NormalizeWord :: "string \<Rightarrow> string" where
  "indexer_NormalizeWord wordbuf =
     (let len = length wordbuf;
          wordbuf = (if len < 3 then wordbuf[0 := NUL] else wordbuf)
      in indexer_NormalizeWord_loop 0 len wordbuf)"

definition entry_searchfn :: "string \<Rightarrow> entry \<Rightarrow> bool" where
  "entry_searchfn searchkeyp ep = (word ep = searchkeyp)"

text \<open>
  The body of the word loop of \<open>main\<close> for one candidate token of the page
  \<open>file_id\<close>: normalise; when a word is left (\<open>word[0] != '\0'\<close>), find its
  entry and in it the document of the page and add 1 to its count, or append a
  document with count 1, or put a new entry with that document into the table.
\<close>

definition add_posting :: "entry table \<Rightarrow> int \<Rightarrow> string \<Rightarrow> entry table" where
  "add_posting index file_id w =
     (case hsearch index entry_searchfn w (strlen w) of
        Some ep \<Rightarrow>
          (case qsearch (documents ep) (doc_searchfn file_id) of
             Some dp \<Rightarrow>
               hmodify index entry_searchfn w (strlen w)
                 (\<lambda>ep. ep\<lparr>documents :=
                    qmodify (documents ep) (doc_searchfn file_id)
                      (\<lambda>dp. dp\<lparr>word_count := word_count dp + 1\<rparr>)\<rparr>)
           | None \<Rightarrow>
               hmodify index entry_searchfn w (strlen w)
                 (\<lambda>ep. ep\<lparr>documents := qput (documents ep) (new_doc file_id 1)\<rparr>))
      | None \<Rightarrow>
          hput index ((new_entry w)\<lparr>documents := qput [] (new_doc file_id 1)\<rparr>) w (strlen w))"

definition index_word :: "entry table \<Rightarrow> int \<Rightarrow> string \<Rightarrow> entry table" where
  "index_word index file_id token =
     (let w = cstring (indexer_NormalizeWord token) in
      if w \<noteq> [] then add_posting index file_id w else index)"



lemma isalpha_NUL [simp]: "\<not> isalpha NUL"
  by (simp add: isalpha_def isupper_def islower_def NUL_def)

















text \<open>
  The table the indexer works on is well formed throughout: \<open>hopen\<close> builds
  it so and \<open>index_word\<close> keeps it so.
\<close>

lemma table_ok_hmodify: "table_ok t \<Longrightarrow> table_ok (hmodify t searchfn k l f)"
  by (simp add: table_ok_def hmodify_def Let_def)

lemma table_ok_index_word: "table_ok index \<Longrightarrow> table_ok (index_word index file_id token)"
  by (simp add: index_word_def add_posting_def Let_def table_ok_hmodify table_ok_hput
      split: option.splits)




subsection \<open>The page loop of the indexer\<close>

text \<open>
  Modelled from the spec: \<open>webpage_getNextWord\<close>, the tokeniser of the
  \<open>WebPage\<close> facility, is not among the sources. The word loop takes the
  candidate tokens it hands out for a page, in order, from the parameter
  \<open>getNextWord\<close>.

  \<open>main\<close> lists the directory, keeps the names that do not begin with a dot,
  reads each with \<open>atoi\<close>, sorts the numbers and loads the pages in that order.
  A page that does not load ends the program with \<open>exit(EXIT_FAILURE)\<close>; the
  index is written by \<open>indexsave\<close> after the last page only. The result is how
  the program stops early (\<open>Inl\<close>), or the directory of the index file after
  \<open>indexsave\<close> has written it.
\<close>

datatype halt = EXIT_FAILURE | Fault fault

definition starts_with_dot :: "string \<Rightarrow> bool" where
  "starts_with_dot d_name = (case d_name of [] \<Rightarrow> False | c # cs \<Rightarrow> c = CHR ''.'')"

definition read_ids :: "directory \<Rightarrow> int list" where
  "read_ids dir =
     map (\<lambda>(d_name, text). atoi d_name)
       (filter (\<lambda>(d_name, text). \<not> starts_with_dot d_name) (files dir))"

fun index_pages ::
  "(webpage \<Rightarrow> string list) \<Rightarrow> entry table \<Rightarrow> directory \<Rightarrow> int list \<Rightarrow> halt + entry table" where
  "index_pages getNextWord index dirname [] = Inr index"
| "index_pages getNextWord index dirname (file_id # rest) =
     (case pageload file_id dirname of
        Inl f \<Rightarrow> Inl (Fault f)
      | Inr None \<Rightarrow> Inl EXIT_FAILURE
      | Inr (Some page) \<Rightarrow>
          index_pages getNextWord
            (foldl (\<lambda>index token. index_word index file_id token) index (getNextWord page))
            dirname rest)"

definition indexer_main ::
  "(webpage \<Rightarrow> string list) \<Rightarrow> directory \<Rightarrow> string \<Rightarrow> directory \<Rightarrow> halt + directory" where
  "indexer_main getNextWord dirname indexnm outdir =
     (case hopen hsize of
        None \<Rightarrow> Inl (Fault NullDereference)
      | Some index \<Rightarrow>
          (case index_pages getNextWord index dirname (sort (read_ids dirname)) of
             Inl h \<Rightarrow> Inl h
           | Inr index' \<Rightarrow>
               (case indexsave index' indexnm outdir of
                  (status, outdir') \<Rightarrow> if status \<noteq> 0 then Inl EXIT_FAILURE else Inr outdir')))"

text \<open>
  A name is the decimal name of a loadable page file when it is the decimal
  of the number \<open>atoi\<close> reads from it and the page of that number loads.
\<close>

definition is_page_name :: "directory \<Rightarrow> string \<Rightarrow> bool" where
  "is_page_name dir d_name =
     (d_name = show_int (atoi d_name)
      \<and> (case pageload (atoi d_name) dir of Inr (Some page) \<Rightarrow> True | _ \<Rightarrow> False))"

lemma index_pages_fails:
  assumes "i \<in> set ids" and "pageload i dirname = Inr None"
  shows "\<exists>h. index_pages getNextWord index dirname ids = Inl h"
  using assms(1)
proof (induction ids arbitrary: index)
  case Nil
  then show ?case by simp
next
  case (Cons a ids)
  show ?case
  proof (cases "pageload a dirname")
    case (Inl f)
    then show ?thesis by simp
  next
    case (Inr p)
    show ?thesis
    proof (cases p)
      case None
      then show ?thesis using Inr by simp
    next
      case (Some page)
      then have "a \<noteq> i" using Inr assms(2) by auto
      then have "i \<in> set ids" using Cons.prems by simp
      from Cons.IH [OF this] show ?thesis using Inr Some by simp
    qed
  qed
qed

lemma index_pages_exit:
  assumes "i \<in> set ids" and "pageload i dirname = Inr None"
    and "\<forall>j\<in>set ids. \<forall>f. pageload j dirname \<noteq> Inl f"
  shows "index_pages getNextWord index dirname ids = Inl EXIT_FAILURE"
  using assms(1,3)
proof (induction ids arbitrary: index)
  case Nil
  then show ?case by simp
next
  case (Cons a ids)
  show ?case
  proof (cases "pageload a dirname")
    case (Inl f)
    then show ?thesis using Cons.prems(2) by simp
  next
    case (Inr p)
    show ?thesis
    proof (cases p)
      case None
      then show ?thesis using Inr by simp
    next
      case (Some page)
      then have "a \<noteq> i" using Inr assms(2) by auto
      then have "i \<in> set ids" using Cons.prems(1) by simp
      moreover have "\<forall>j\<in>set ids. \<forall>f. pageload j dirname \<noteq> Inl f" using Cons.prems(2) by simp
      ultimately show ?thesis using Cons.IH Inr Some by simp
    qed
  qed
qed

lemma hopen_hsize: "hopen hsize = Some (the (hopen hsize) :: 'e table)"
  by (simp add: hopen_def hsize_def)

text \<open>
  Claim C10, as amended. If the page directory has an entry whose name does not
  begin with a dot and which \<open>atoi\<close> reads as a document id whose page file
  does not load (\<open>pageload\<close> returns NULL), the indexer stops before
  \<open>indexsave\<close>, so no index file is written; it stops with
  \<open>exit(EXIT_FAILURE)\<close>, at the first id in ascending order whose page does not
  load, unless \<open>pageload\<close> runs into undefined behaviour on a page file first.
\<close>

theorem C10_unloadable_entry:
  assumes "(d_name, text) \<in> set (files dirname)" and "\<not> starts_with_dot d_name"
    and "pageload (atoi d_name) dirname = Inr None"
  shows "(\<exists>h. indexer_main getNextWord dirname indexnm outdir = Inl h)
       \<and> ((\<forall>j\<in>set (read_ids dirname). \<forall>f. pageload j dirname \<noteq> Inl f) \<longrightarrow>
            indexer_main getNextWord dirname indexnm outdir = Inl EXIT_FAILURE)"
proof -
  have m: "atoi d_name \<in> set (sort (read_ids dirname))"
    using assms(1,2) by (force simp: read_ids_def)
  from index_pages_fails [OF m assms(3), of getNextWord "the (hopen hsize)"]
  obtain h where "index_pages getNextWord (the (hopen hsize)) dirname (sort (read_ids dirname)) = Inl h"
    by blast
  then have a: "\<exists>h. indexer_main getNextWord dirname indexnm outdir = Inl h"
    by (subst indexer_main_def, subst hopen_hsize) simp
  have b: "indexer_main getNextWord dirname indexnm outdir = Inl EXIT_FAILURE"
    if "\<forall>j\<in>set (read_ids dirname). \<forall>f. pageload j dirname \<noteq> Inl f"
  proof -
    from that have "\<forall>j\<in>set (sort (read_ids dirname)). \<forall>f. pageload j dirname \<noteq> Inl f" by simp
    from index_pages_exit [OF m assms(3) this] show ?thesis
      by (subst indexer_main_def, subst hopen_hsize) simp
  qed
  show ?thesis using a b by blast
qed

definition stray_dir :: directory where
  "stray_dir = \<lparr>writable = False, files = [(''foo'', ''notes'')]\<rparr>"

theorem C10_unloadable_entry_witness:
  "(''foo'', ''notes'') \<in> set (files stray_dir) \<and> \<not> starts_with_dot ''foo''
   \<and> atoi ''foo'' = 0 \<and> pageload (atoi ''foo'') stray_dir = Inr None
   \<and> indexer_main (\<lambda>page. []) stray_dir ''index'' \<lparr>writable = True, files = []\<rparr>
       = Inl EXIT_FAILURE"
proof -
  have a: "(''foo'', ''notes'') \<in> set (files stray_dir)" by (simp add: stray_dir_def)
  have b: "\<not> starts_with_dot ''foo''" by (simp add: starts_with_dot_def)
  have z: "atoi ''foo'' = 0" by code_simp
  have c: "pageload (atoi ''foo'') stray_dir = Inr None" by code_simp
  have d: "read_ids stray_dir = [0]" by code_simp
  show ?thesis
    using C10_unloadable_entry [OF a b c, of "\<lambda>page. []" "''index''" "\<lparr>writable = True, files = []\<rparr>"]
      a b c d z by simp
qed

text \<open>
  The claim as it was stated fails for an entry that is not the decimal name
  of a page file but that \<open>atoi\<close> reads as the id of a page that loads: next to
  the page file \<open>1\<close>, the entry \<open>1x\<close> makes the indexer load page 1 a second
  time, and the index is written.
\<close>

definition mixed_dir :: directory where
  "mixed_dir = \<lparr>writable = False, files = [(''1'', page_text plain_page), (''1x'', ''notes'')]\<rparr>"

theorem C10_stray_entry_counterexample:
  "(''1x'', ''notes'') \<in> set (files mixed_dir) \<and> \<not> starts_with_dot ''1x''
   \<and> \<not> is_page_name mixed_dir ''1x''
   \<and> sort (read_ids mixed_dir) = [1, 1]
   \<and> (\<forall>getNextWord. \<exists>outdir'.
         indexer_main getNextWord mixed_dir ''index'' \<lparr>writable = True, files = []\<rparr> = Inr outdir')"
proof -
  have a: "(''1x'', ''notes'') \<in> set (files mixed_dir)" by (simp add: mixed_dir_def)
  have b: "\<not> starts_with_dot ''1x''" by (simp add: starts_with_dot_def)
  have c: "\<not> is_page_name mixed_dir ''1x''" by code_simp
  have d: "sort (read_ids mixed_dir) = [1, 1]" by code_simp
  have e: "pageload 1 mixed_dir = Inr (Some plain_page)" by code_simp
  have "\<exists>outdir'. indexer_main getNextWord mixed_dir ''index'' \<lparr>writable = True, files = []\<rparr> = Inr outdir'"
    for getNextWord
    by (subst indexer_main_def, subst hopen_hsize) (simp add: d e indexsave_def)
  then show ?thesis using a b c d by blast
qed


section \<open>The crawler (crawler.c)\<close>

text \<open>
  Modelled from the spec: fetching a page, extracting its URLs and classifying
  a URL as internal belong to the \<open>WebPage\<close> facility, which is not among the
  sources. They are the fields of \<open>web\<close>: \<open>webpage_fetch url\<close> is the html of
  the page, or \<open>None\<close> when the fetch fails; \<open>webpage_getNextURL page pos\<close> is
  the next position, positive while there is a URL, with that URL.
\<close>

record web =
  webpage_fetch :: "string \<Rightarrow> string option"
  webpage_getNextURL :: "webpage \<Rightarrow> int \<Rightarrow> int \<times> string"
  IsInternalURL :: "string \<Rightarrow> bool"

text \<open>
  A worker is at the head of its loop (\<open>Idle\<close>), inside the URL loop of the
  page \<open>currp\<close> at position \<open>pos\<close>, or has left \<open>crawl\<close>. The shared state is
  the frontier \<open>qp\<close>, the visited URLs \<open>hp\<close>, the two counters, the next
  document id and the page directory; \<open>saved\<close> lists the pages for which
  \<open>pagesave\<close> has returned 0, with their ids; \<open>exited\<close> is set by \<open>exit(EXIT_FAILURE)\<close>.
\<close>

datatype worker = Idle | Crawling webpage int | Done

record crawl_state =
  qp :: "webpage list"
  hp :: "string list"
  pages_added :: int
  pages_retrieved :: int
  next_id :: int
  dirname :: directory
  saved :: "(int \<times> webpage) list"
  workers :: "worker list"
  exited :: bool

definition fetched_page :: "string \<Rightarrow> int \<Rightarrow> string \<Rightarrow> webpage" where
  "fetched_page u d h =
     \<lparr>webpage_getURL = u, webpage_getDepth = d,
      webpage_getHTMLlen = int (length h), webpage_getHTML = h\<rparr>"

text \<open>
  The critical section of \<open>crawl\<close> for an internal URL, entered with the
  mutex held: a visited URL is dropped; a new one is fetched at depth
  \<open>depth + 1\<close> and, when the fetch succeeds, queued, counted, marked visited
  and saved under the next id; a failed save ends the program.
\<close>

definition visit_url :: "web \<Rightarrow> int \<Rightarrow> string \<Rightarrow> crawl_state \<Rightarrow> crawl_state" where
  "visit_url env depth u s =
     (if u \<in> set (hp s) then s
      else
        (case webpage_fetch env u of
           None \<Rightarrow> s
         | Some h \<Rightarrow>
             (let page = fetched_page u (depth + 1) h;
                  (status, dir') = pagesave page (next_id s) (dirname s);
                  s' = s\<lparr>qp := qput (qp s) page,
                         pages_added := pages_added s + 1,
                         hp := hp s @ [u],
                         dirname := dir',
                         saved := (if status = 0 then saved s @ [(next_id s, page)] else saved s),
                         next_id := next_id s + 1\<rparr>
              in if status \<noteq> 0 then s'\<lparr>exited := True\<rparr> else s')))"











lemma visit_url_workers [simp]: "workers (visit_url env depth u s) = workers s"
  by (auto simp: visit_url_def Let_def split: option.splits prod.splits)



















end
